theory Spec2Isabelle
  imports Main "HOL-Library.Word" "HOL-Library.Signed_Division"
begin

unbundle bit_operations_syntax

section \<open>The incremental streaming server (adb/client/incremental_server.cpp)\<close>

text \<open>
  A shallow embedding of \<^verbatim>\<open>IncrementalServer\<close>. Fixed-width integers are machine
  words read with \<open>sint\<close> where the source compares or indexes with them; vectors and
  the deque are lists; every file-descriptor effect is recorded in the state.
  An index outside a vector is undefined behaviour in the source and a \<open>fault\<close> here.
  Members the source spells with a trailing underscore (\<^verbatim>\<open>files_\<close>, \<^verbatim>\<open>buffer_\<close>, ...)
  lose it, since a HOL name cannot end in one; \<^verbatim>\<open>PrefetchState::file\<close> is \<open>pfile\<close>, \<^verbatim>\<open>File::id\<close> and \<^verbatim>\<open>File::size\<close> are
  \<open>fid\<close> and \<open>fsize\<close>.
\<close>

subsection \<open>Types and constants\<close>

type_synonym byte = "8 word"
type_synonym BlockSize = "16 word"
type_synonym FileId = "16 word"
type_synonym BlockIdx = "32 word"
type_synonym NumBlocks = "32 word"
type_synonym CompressionType = "16 word"
type_synonym RequestType = "16 word"
type_synonym MagicType = "32 word"

definition kBlockSize :: int where
  "kBlockSize = 4096"

text \<open>\<^verbatim>\<open>kBlockSize * 0.95\<close> is 3891.2, converted to \<^verbatim>\<open>int\<close> by truncation.\<close>

definition kCompressedSizeMax :: int where
  "kCompressedSizeMax = (kBlockSize * 95) div 100"

definition kCompressionNone :: CompressionType where
  "kCompressionNone = 0"

definition kCompressionLZ4 :: CompressionType where
  "kCompressionLZ4 = 1"

text \<open>Modelled from the spec: the macro of lz4.h, \<^verbatim>\<open>isize + isize/255 + 16\<close> for
  inputs up to \<^verbatim>\<open>LZ4_MAX_INPUT_SIZE = 0x7E000000\<close> and 0 above it.\<close>

definition LZ4_COMPRESSBOUND :: "int \<Rightarrow> int" where
  "LZ4_COMPRESSBOUND isize = (if isize > 0x7E000000 then 0 else isize + isize div 255 + 16)"

definition kCompressBound :: int where
  "kCompressBound = max kBlockSize (LZ4_COMPRESSBOUND kBlockSize)"

definition kReadBufferSize :: nat where
  "kReadBufferSize = 128 * 1024"

definition INCR :: MagicType where
  "INCR = 0x494e4352"

definition SERVING_COMPLETE :: RequestType where
  "SERVING_COMPLETE = 0"

definition BLOCK_MISSING :: RequestType where
  "BLOCK_MISSING = 1"

definition PREFETCH :: RequestType where
  "PREFETCH = 2"

definition DESTROY :: RequestType where
  "DESTROY = 3"

definition kPrefetchBlocksPerIteration :: int where
  "kPrefetchBlocksPerIteration = 128"

definition kChunkFlushSize :: nat where
  "kChunkFlushSize = 31 * 4096"

definition sizeof_ChunkHeader :: nat where
  "sizeof_ChunkHeader = 4"

definition sizeof_INCR :: nat where
  "sizeof_INCR = 4"

definition sizeof_RequestCommand :: nat where
  "sizeof_RequestCommand = 8"

subsection \<open>Block arithmetic\<close>

definition roundDownToBlockOffset :: "64 word \<Rightarrow> 64 word" where
  "roundDownToBlockOffset val = val AND NOT 4095"

definition roundUpToBlockOffset :: "64 word \<Rightarrow> 64 word" where
  "roundUpToBlockOffset val = roundDownToBlockOffset (val + 4096 - 1)"

text \<open>The 64-bit quotient (C++ division truncates) is narrowed to \<^verbatim>\<open>NumBlocks\<close>.\<close>

definition numBytesToNumBlocks :: "64 word \<Rightarrow> NumBlocks" where
  "numBytesToNumBlocks bytes = word_of_int (sint (roundUpToBlockOffset bytes) sdiv 4096)"

definition blockIndexToOffset :: "BlockIdx \<Rightarrow> int" where
  "blockIndexToOffset blockIdx = sint blockIdx * kBlockSize"

subsection \<open>Big-endian integers\<close>

definition toBigEndian16 :: "16 word \<Rightarrow> byte list" where
  "toBigEndian16 t = [ucast (drop_bit 8 t), ucast t]"

definition toBigEndian32 :: "32 word \<Rightarrow> byte list" where
  "toBigEndian32 t =
     [ucast (drop_bit 24 t), ucast (drop_bit 16 t), ucast (drop_bit 8 t), ucast t]"

text \<open>Readers take the bytes at the pointer; the callers below pass windows of the
  right length, as the source's fixed-size buffers guarantee.\<close>

definition readBigEndian16 :: "byte list \<Rightarrow> 16 word" where
  "readBigEndian16 d = push_bit 8 (ucast (d ! 0)) OR ucast (d ! 1)"

definition readBigEndian32 :: "byte list \<Rightarrow> 32 word" where
  "readBigEndian32 d =
     push_bit 24 (ucast (d ! 0)) OR push_bit 16 (ucast (d ! 1)) OR
     push_bit 8 (ucast (d ! 2)) OR ucast (d ! 3)"

subsection \<open>Wire records\<close>

record RequestCommand =
  request_type :: RequestType
  file_id :: FileId
  block_idx :: BlockIdx

text \<open>The header holds the field values; \<open>header_bytes\<close> is its packed 10-byte image after
  \<^verbatim>\<open>toBigEndian\<close> on every field.\<close>

record ResponseHeader =
  hdr_file_id :: FileId
  compression_type :: CompressionType
  hdr_block_idx :: BlockIdx
  block_size :: BlockSize

definition sizeof_ResponseHeader :: nat where
  "sizeof_ResponseHeader = 10"

definition header_bytes :: "ResponseHeader \<Rightarrow> byte list" where
  "header_bytes h =
     toBigEndian16 (hdr_file_id h) @ toBigEndian16 (compression_type h) @
     toBigEndian32 (hdr_block_idx h) @ toBigEndian16 (block_size h)"

subsection \<open>File\<close>

text \<open>\<open>fd\<close> is the opened descriptor: \<open>Some c\<close> reads from contents \<open>c\<close>, \<open>None\<close> is a
  descriptor on which every positional read fails.\<close>

record File =
  sentBlocks :: "bool list"
  sentBlocksCount :: NumBlocks
  filepath :: string
  fid :: FileId
  fsize :: "64 word"
  fd :: "byte list option"

datatype fault = OutOfBounds | LengthError

text \<open>The constructor: \<^verbatim>\<open>sentBlocks.resize(numBytesToNumBlocks(size))\<close>. A negative
  \<^verbatim>\<open>NumBlocks\<close> converts to a \<^verbatim>\<open>size_t\<close> above \<^verbatim>\<open>max_size()\<close> and the resize throws.\<close>

definition mk_File :: "string \<Rightarrow> FileId \<Rightarrow> 64 word \<Rightarrow> byte list option \<Rightarrow> fault + File" where
  "mk_File path i sz h =
     (let n = numBytesToNumBlocks sz in
      if sint n < 0 then Inl LengthError
      else Inr \<lparr> sentBlocks = replicate (nat (sint n)) False, sentBlocksCount = 0,
                 filepath = path, fid = i, fsize = sz, fd = h \<rparr>)"

text \<open>\<^verbatim>\<open>adb_pread(fd_, buf + sizeof(ResponseHeader), kBlockSize, offset)\<close>: the number of bytes
  read (or -1) and the bytes placed after the header slot of the buffer.\<close>

definition adb_pread :: "byte list option \<Rightarrow> nat \<Rightarrow> int \<Rightarrow> int \<times> byte list" where
  "adb_pread h count offset =
     (case h of
        None \<Rightarrow> (- 1, [])
      | Some c \<Rightarrow>
          if offset < 0 then (- 1, [])
          else (let d = take count (drop (nat offset) c) in (int (length d), d)))"

definition ReadBlock :: "File \<Rightarrow> BlockIdx \<Rightarrow> int \<times> byte list" where
  "ReadBlock f blockIdx = adb_pread (fd f) (nat kBlockSize) (blockIndexToOffset blockIdx)"

subsection \<open>Server state\<close>

record PrefetchState =
  pfile :: nat
  overallIndex :: BlockIdx
  overallEnd :: BlockIdx

definition prefetch_done :: "PrefetchState \<Rightarrow> bool" where
  "prefetch_done p = (sint (overallIndex p) \<ge> sint (overallEnd p))"

text \<open>What \<^verbatim>\<open>adb_poll\<close> and \<^verbatim>\<open>adb_read\<close> will report, in order. \<open>Data bs\<close>: the descriptor is
  readable and \<open>bs\<close> are the bytes available (\<open>Data []\<close>: the read returns no bytes, that
  is end of file or an error). After the last event the peer has closed the connection.\<close>

datatype event = Data "byte list" | Timeout | PollError

datatype diag =
    FailedPastEnd string BlockIdx
  | FailedGetData string BlockIdx
  | FailedSendBlockPrefetch BlockIdx
  | FailedSendBlock BlockIdx
  | TimedOut
  | AllFilesLoaded
  | InvalidDataRequest FileId BlockIdx
  | InvalidPrefetch FileId
  | DuplicatePrefetch FileId
  | InvalidRequest RequestType FileId BlockIdx
  | ConnectionDead

text \<open>
  The members of \<^verbatim>\<open>IncrementalServer\<close>, then the locals of \<^verbatim>\<open>Serve\<close> (\<open>prefetchedFiles\<close>,
  \<open>doneSent\<close>, \<open>missesCount\<close>, \<open>missesSent\<close>), then the outside world: \<open>adb_in\<close> the
  future of the connection, \<open>adb_writes\<close> the buffers given to \<^verbatim>\<open>WriteFdExactly(adb_fd_, ..)\<close>,
  \<open>output_bytes\<close> everything written to \<^verbatim>\<open>output_fd_\<close>, \<open>stderr\<close> the diagnostics printed.
  \<open>emitted\<close> is a history variable, the response headers handed to \<^verbatim>\<open>Send\<close> so far; no
  function reads it. A \<^verbatim>\<open>PrefetchState\<close> points into \<open>files\<close>, which never changes
  length, so the pointer is the index.
\<close>

record IncrementalServer =
  files :: "File list"
  buffer :: "byte list"
  prefetches :: "PrefetchState list"
  compressed :: "32 word"
  uncompressed :: "32 word"
  sentSize :: "64 word"
  pendingBlocks :: "byte list"
  servingComplete :: bool
  prefetchedFiles :: "FileId set"
  doneSent :: bool
  missesCount :: "32 word"
  missesSent :: "32 word"
  adb_in :: "event list"
  adb_writes :: "byte list list"
  output_bytes :: "byte list"
  stderr :: "diag list"
  emitted :: "ResponseHeader list"

text \<open>\<^verbatim>\<open>servingComplete_\<close> has no initializer and the constructor does not set it: its
  first value is whatever the object's storage held, the parameter \<open>garbage\<close>.\<close>

definition new_IncrementalServer :: "bool \<Rightarrow> event list \<Rightarrow> File list \<Rightarrow> IncrementalServer" where
  "new_IncrementalServer garbage inbound fs =
     \<lparr> files = fs, buffer = [], prefetches = [], compressed = 0, uncompressed = 0,
       sentSize = 0, pendingBlocks = [], servingComplete = garbage,
       prefetchedFiles = {}, doneSent = False, missesCount = 0, missesSent = 0,
       adb_in = inbound, adb_writes = [], output_bytes = [], stderr = [], emitted = [] \<rparr>"

subsection \<open>Output batcher\<close>

text \<open>A failed \<^verbatim>\<open>WriteFdExactly\<close> only prints a diagnostic; the model records the call.\<close>

definition Flush :: "IncrementalServer \<Rightarrow> IncrementalServer" where
  "Flush s =
     (if pendingBlocks s = [] then s
      else
        let chunk = toBigEndian32 (word_of_nat (length (pendingBlocks s) - sizeof_ChunkHeader))
                    @ drop sizeof_ChunkHeader (pendingBlocks s)
        in s\<lparr> adb_writes := adb_writes s @ [chunk],
                sentSize := sentSize s + word_of_nat (length (pendingBlocks s)),
                pendingBlocks := [] \<rparr>)"

definition Send :: "byte list \<Rightarrow> bool \<Rightarrow> IncrementalServer \<Rightarrow> IncrementalServer" where
  "Send data flush s =
     (let s1 = (if pendingBlocks s = []
                then s\<lparr> pendingBlocks := replicate sizeof_ChunkHeader 0 \<rparr> else s);
          s2 = s1\<lparr> pendingBlocks := pendingBlocks s1 @ data \<rparr>
      in if flush \<or> length (pendingBlocks s2) > kChunkFlushSize then Flush s2 else s2)"

subsection \<open>Block sender\<close>

datatype SendResult = Sent | Skipped | Error

text \<open>Modelled from the spec: \<^verbatim>\<open>LZ4_compress_default(src, dst, srcSize, dstCapacity)\<close> of the
  LZ4 library returns the number of bytes written to \<open>dst\<close>, never more than
  \<open>dstCapacity\<close>, or 0 when it fails. The compressor itself is the parameter \<open>lz4\<close>.\<close>

definition LZ4_compress_default ::
  "(byte list \<Rightarrow> byte list option) \<Rightarrow> byte list \<Rightarrow> int \<Rightarrow> int \<times> byte list" where
  "LZ4_compress_default lz4 src dstCapacity =
     (case lz4 src of
        None \<Rightarrow> (0, [])
      | Some out \<Rightarrow> if int (length out) \<le> dstCapacity then (int (length out), out) else (0, []))"

text \<open>Lines 320 to 343 of \<^verbatim>\<open>SendBlock\<close>: the header and the payload chosen for a block whose
  read returned \<open>bytesRead\<close> bytes \<open>raw\<close>. \<^verbatim>\<open>ReadBlock\<close> never sets \<open>isZipCompressed\<close>.\<close>

definition choose_response ::
  "(byte list \<Rightarrow> byte list option) \<Rightarrow> FileId \<Rightarrow> BlockIdx \<Rightarrow> int \<Rightarrow> byte list
     \<Rightarrow> ResponseHeader \<times> byte list" where
  "choose_response lz4 fileId blockIdx bytesRead raw =
     (let isZipCompressed = False;
          (r, cdata) = LZ4_compress_default lz4 raw kCompressBound;
          compressedSize = (if \<not> isZipCompressed then word_of_int r else 0) :: 16 word
      in if sint compressedSize > 0 \<and> sint compressedSize < kCompressedSizeMax
         then (\<lparr> hdr_file_id = fileId, compression_type = kCompressionLZ4,
                  hdr_block_idx = blockIdx, block_size = compressedSize \<rparr>,
               take (nat (sint compressedSize)) cdata)
         else (let blockSize = word_of_int bytesRead :: 16 word in
               (\<lparr> hdr_file_id = fileId, compression_type = kCompressionNone,
                  hdr_block_idx = blockIdx, block_size = blockSize \<rparr>,
                take (nat (sint blockSize)) raw)))"

definition SendBlock ::
  "(byte list \<Rightarrow> byte list option) \<Rightarrow> FileId \<Rightarrow> BlockIdx \<Rightarrow> bool \<Rightarrow> IncrementalServer
     \<Rightarrow> fault + (SendResult \<times> IncrementalServer)" where
  "SendBlock lz4 fileId blockIdx flush s =
     (if sint fileId < 0 \<or> nat (sint fileId) \<ge> length (files s) then Inl OutOfBounds
      else
        let fi = nat (sint fileId); f = files s ! fi in
        if sint blockIdx \<ge> int (length (sentBlocks f))
        then Inr (Error, s\<lparr> stderr := stderr s @ [FailedPastEnd (filepath f) blockIdx] \<rparr>)
        else if sint blockIdx < 0 then Inl OutOfBounds
        else if sentBlocks f ! nat (sint blockIdx) then Inr (Skipped, s)
        else
          let (bytesRead, raw) = ReadBlock f blockIdx in
          if bytesRead < 0
          then Inr (Error, s\<lparr> stderr := stderr s @ [FailedGetData (filepath f) blockIdx] \<rparr>)
          else
            let (header, payload) = choose_response lz4 fileId blockIdx bytesRead raw;
                s1 = (if compression_type header = kCompressionLZ4
                      then s\<lparr> compressed := compressed s + 1 \<rparr>
                      else s\<lparr> uncompressed := uncompressed s + 1 \<rparr>);
                f' = f\<lparr> sentBlocks := (sentBlocks f)[nat (sint blockIdx) := True],
                        sentBlocksCount := sentBlocksCount f + 1 \<rparr>;
                s2 = s1\<lparr> files := (files s1)[fi := f'], emitted := emitted s1 @ [header] \<rparr>
            in Inr (Sent, Send (header_bytes header @ payload) flush s2))"

definition SendDone :: "IncrementalServer \<Rightarrow> IncrementalServer" where
  "SendDone s =
     (let header = \<lparr> hdr_file_id = - 1, compression_type = 0, hdr_block_idx = 0,
                     block_size = 0 \<rparr>
      in Send (header_bytes header) True (s\<lparr> emitted := emitted s @ [header] \<rparr>))"


subsection \<open>Frame reader\<close>

text \<open>The scan of \<^verbatim>\<open>SkipToRequest\<close>: \<^verbatim>\<open>for (bcur = 0; bcur + 4 < bsize; ++bcur)\<close>, leaving
  \<open>(magic_found, bcur)\<close>.\<close>

function scan_magic :: "byte list \<Rightarrow> nat \<Rightarrow> bool \<times> nat" where
  "scan_magic buf bcur =
     (if bcur + 4 < length buf
      then (if readBigEndian32 (drop bcur buf) = INCR then (True, bcur)
            else scan_magic buf (bcur + 1))
      else (False, bcur))"
  by pat_completeness auto
termination
  by (relation "measure (\<lambda>(buf, bcur). length buf - bcur)") auto

declare scan_magic.simps [simp del]

definition erase_buffer_head :: "nat \<Rightarrow> IncrementalServer \<Rightarrow> IncrementalServer" where
  "erase_buffer_head n s = s\<lparr> buffer := drop n (buffer s) \<rparr>"

text \<open>\<^verbatim>\<open>WriteFdExactly(output_fd_, data, n)\<close>.\<close>

definition write_output :: "byte list \<Rightarrow> IncrementalServer \<Rightarrow> IncrementalServer" where
  "write_output d s = s\<lparr> output_bytes := output_bytes s @ d \<rparr>"

text \<open>\<^verbatim>\<open>std::vector<char>::resize(n)\<close>: new elements are zero.\<close>

definition resize :: "nat \<Rightarrow> byte list \<Rightarrow> byte list" where
  "resize n xs = take n xs @ replicate (n - length xs) 0"

text \<open>Lines 224 to 239: scan, forward the bytes before \<open>bcur\<close>, erase them.\<close>

definition scan_and_forward :: "IncrementalServer \<Rightarrow> bool \<times> IncrementalServer" where
  "scan_and_forward s =
     (let (magic_found, bcur) = scan_magic (buffer s) 0
      in (magic_found,
          if bcur > 0 then erase_buffer_head bcur (write_output (take bcur (buffer s)) s)
          else s))"

fun event_size :: "event \<Rightarrow> nat" where
  "event_size (Data bs) = Suc (length bs)"
| "event_size Timeout = 1"
| "event_size PollError = 1"

text \<open>\<^verbatim>\<open>adb_read(adb_fd_, buffer_.data() + bsize, kReadBufferSize - bsize)\<close> on the head of
  \<open>adb_in\<close>: the bytes delivered and the rest of the connection's future.\<close>

definition adb_read :: "nat \<Rightarrow> byte list \<Rightarrow> event list \<Rightarrow> byte list \<times> event list" where
  "adb_read cap bs es =
     (take cap bs, if drop cap bs = [] then es else Data (drop cap bs) # es)"

text \<open>One pass through the body of \<^verbatim>\<open>while (true)\<close> in \<^verbatim>\<open>SkipToRequest\<close>: \<open>Inr s'\<close> is
  \<^verbatim>\<open>continue\<close> with state \<open>s'\<close>, \<open>Inl\<close> a return. A result is the return value,
  \<^verbatim>\<open>*size\<close> on return and the bytes copied to \<^verbatim>\<open>buffer\<close> (none where the source copies
  none). A failed read leaves the loop by \<^verbatim>\<open>break\<close>, with \<open>buffer_\<close> still resized.\<close>

definition SkipToRequest_body ::
  "nat \<Rightarrow> bool \<Rightarrow> IncrementalServer
     \<Rightarrow> ((bool \<times> nat \<times> byte list) \<times> IncrementalServer) + IncrementalServer" where
  "SkipToRequest_body sz blocking s =
     (case scan_and_forward s of (magic_found, s1) \<Rightarrow>
      if magic_found \<and> length (buffer s1) \<ge> sz + sizeof_INCR
      then Inl ((True, sz, take sz (drop sizeof_INCR (buffer s1))),
                erase_buffer_head (sz + sizeof_INCR) s1)
      else
        (case adb_in s1 of
           Timeout # es \<Rightarrow>
             (let s2 = write_output (buffer s1) (s1\<lparr> adb_in := es \<rparr>);
                  s3 = (if blocking then s2\<lparr> stderr := stderr s2 @ [TimedOut] \<rparr> else s2)
              in if blocking \<and> servingComplete s3 then Inl ((False, sz, []), s3)
                 else Inl ((True, 0, []), s3))
         | PollError # es \<Rightarrow>
             Inl ((False, sz, []), write_output (buffer s1) (s1\<lparr> adb_in := es \<rparr>))
         | Data bs # es \<Rightarrow>
             (let bsize = length (buffer s1);
                  (got, rest) = adb_read (kReadBufferSize - bsize) bs es
              in if length got > 0
                 then Inr (s1\<lparr> buffer := buffer s1 @ got, adb_in := rest \<rparr>)
                 else (let s2 = s1\<lparr> buffer := resize kReadBufferSize (buffer s1),
                                       adb_in := rest \<rparr>
                       in Inl ((False, sz, []), write_output (buffer s2) s2)))
         | [] \<Rightarrow>
             (let s2 = s1\<lparr> buffer := resize kReadBufferSize (buffer s1) \<rparr>
              in Inl ((False, sz, []), write_output (buffer s2) s2))))"

definition inbound_size :: "IncrementalServer \<Rightarrow> nat" where
  "inbound_size s = sum_list (map event_size (adb_in s))"

lemma adb_in_scan_and_forward: "scan_and_forward s = (m, s1) \<Longrightarrow> adb_in s1 = adb_in s"
  by (auto simp: scan_and_forward_def erase_buffer_head_def write_output_def
           split: prod.splits if_splits)

lemma adb_read_smaller:
  "adb_read cap bs es = (got, rest) \<Longrightarrow> 0 < length got \<Longrightarrow>
     sum_list (map event_size rest) < Suc (length bs + sum_list (map event_size es))"
  by (auto simp: adb_read_def split: if_splits)

lemma SkipToRequest_body_smaller:
  assumes "SkipToRequest_body sz blocking s = Inr s'"
  shows "inbound_size s' < inbound_size s"
proof -
  obtain m s1 where sf: "scan_and_forward s = (m, s1)"
    by (cases "scan_and_forward s")
  have in1: "adb_in s1 = adb_in s"
    using sf by (rule adb_in_scan_and_forward)
  from assms sf obtain bs es got rest where
    ev: "adb_in s1 = Data bs # es" and
    rd: "adb_read (kReadBufferSize - length (buffer s1)) bs es = (got, rest)" and
    pos: "0 < length got" and
    s': "s' = s1\<lparr> buffer := buffer s1 @ got, adb_in := rest \<rparr>"
    by (auto simp: SkipToRequest_body_def Let_def
             split: if_splits list.splits event.splits prod.splits)
  show ?thesis
    using adb_read_smaller [OF rd pos] ev in1 s' by (simp add: inbound_size_def)
qed

function SkipToRequest ::
  "nat \<Rightarrow> bool \<Rightarrow> IncrementalServer \<Rightarrow> (bool \<times> nat \<times> byte list) \<times> IncrementalServer" where
  "SkipToRequest sz blocking s =
     (case SkipToRequest_body sz blocking s of
        Inl r \<Rightarrow> r
      | Inr s' \<Rightarrow> SkipToRequest sz blocking s')"
  by pat_completeness auto
termination
  by (relation "measure (\<lambda>(sz, blocking, s). inbound_size s)")
     (auto dest: SkipToRequest_body_smaller)

declare SkipToRequest.simps [simp del]

definition ReadRequest ::
  "bool \<Rightarrow> IncrementalServer \<Rightarrow> RequestCommand option \<times> IncrementalServer" where
  "ReadRequest blocking s =
     (case SkipToRequest sizeof_RequestCommand blocking s of ((ok, sz, commandBuf), s1) \<Rightarrow>
      if \<not> ok then (Some \<lparr> request_type = DESTROY, file_id = 0, block_idx = 0 \<rparr>, s1)
      else if sz < sizeof_RequestCommand then (None, s1)
      else (Some \<lparr> request_type = readBigEndian16 commandBuf,
                    file_id = readBigEndian16 (drop 2 commandBuf),
                    block_idx = readBigEndian32 (drop 4 commandBuf) \<rparr>, s1))"


subsection \<open>Prefetch queue\<close>

text \<open>\<^verbatim>\<open>PrefetchState(const File& f)\<close> and \<^verbatim>\<open>PrefetchState(const File& f, BlockIdx start, int count)\<close>;
  \<open>fi\<close> is the position of \<open>f\<close> in \<open>files_\<close>. \<^verbatim>\<open>std::min<BlockIdx>(a, b)\<close> is \<open>b\<close> when
  \<open>b < a\<close> and \<open>a\<close> otherwise.\<close>

definition PrefetchState_full :: "nat \<Rightarrow> File \<Rightarrow> PrefetchState" where
  "PrefetchState_full fi f =
     \<lparr> pfile = fi, overallIndex = 0, overallEnd = word_of_nat (length (sentBlocks f)) \<rparr>"

definition PrefetchState_range :: "nat \<Rightarrow> File \<Rightarrow> BlockIdx \<Rightarrow> 32 word \<Rightarrow> PrefetchState" where
  "PrefetchState_range fi f start count =
     (let a = start + count; b = (word_of_nat (length (sentBlocks f)) :: BlockIdx)
      in \<lparr> pfile = fi, overallIndex = start,
            overallEnd = (if sint b < sint a then b else a) \<rparr>)"

lemma sint_succ_less:
  fixes i e :: "32 word"
  assumes "sint i < sint e"
  shows "sint (i + 1) = sint i + 1"
proof -
  have "sint e < 2 ^ 31" using sint_lt [of e] by simp
  moreover have "- (2 ^ 31) \<le> sint i" using sint_ge [of i] by simp
  ultimately have "signed_take_bit 31 (sint i + 1) = sint i + 1"
    using assms by (intro signed_take_bit_int_eq_self) auto
  then show ?thesis by (simp add: sint_word_ariths)
qed

text \<open>The inner loop of \<^verbatim>\<open>RunPrefetching\<close>,
  \<^verbatim>\<open>for (auto& i = prefetch.overallIndex; blocksToSend > 0 && i < prefetch.overallEnd; ++i)\<close>:
  it returns \<open>i\<close>, \<open>blocksToSend\<close> and the state at loop exit.\<close>

function prefetch_blocks ::
  "(byte list \<Rightarrow> byte list option) \<Rightarrow> FileId \<Rightarrow> BlockIdx \<Rightarrow> BlockIdx \<Rightarrow> int \<Rightarrow> IncrementalServer
     \<Rightarrow> fault + (BlockIdx \<times> int \<times> IncrementalServer)" where
  "prefetch_blocks lz4 ident i e blocksToSend s =
     (if blocksToSend > 0 \<and> sint i < sint e
      then (case SendBlock lz4 ident i False s of
              Inl flt \<Rightarrow> Inl flt
            | Inr (res, s1) \<Rightarrow>
                if res = Sent then prefetch_blocks lz4 ident (i + 1) e (blocksToSend - 1) s1
                else if res = Error
                then prefetch_blocks lz4 ident (i + 1) e blocksToSend
                       (s1\<lparr> stderr := stderr s1 @ [FailedSendBlockPrefetch i] \<rparr>)
                else prefetch_blocks lz4 ident (i + 1) e blocksToSend s1)
      else Inr (i, blocksToSend, s))"
  by pat_completeness auto
termination
  by (relation "measure (\<lambda>(lz4, ident, i, e, b, s). nat (sint e - sint i))")
     (auto simp: sint_succ_less)

declare prefetch_blocks.simps [simp del]


lemma prefetches_Flush: "prefetches (Flush s) = prefetches s"
  by (simp add: Flush_def Let_def)

lemma prefetches_Send: "prefetches (Send d fl s) = prefetches s"
  by (simp add: Send_def Let_def prefetches_Flush)

lemma prefetches_SendBlock:
  "SendBlock lz4 ident i fl s = Inr (res, s1) \<Longrightarrow> prefetches s1 = prefetches s"
  by (auto simp: SendBlock_def Let_def prefetches_Send split: if_splits prod.splits)

lemma prefetch_blocks_exit:
  "prefetch_blocks lz4 ident i e b s = Inr (i', b', s') \<Longrightarrow>
     prefetches s' = prefetches s \<and> (b' \<le> 0 \<or> sint e \<le> sint i')"
proof (induction lz4 ident i e b s rule: prefetch_blocks.induct)
  case (1 lz4 ident i e b s)
  show ?case
  proof (cases "b > 0 \<and> sint i < sint e")
    case False
    with "1.prems" show ?thesis
      by (auto simp: prefetch_blocks.simps [of lz4 ident i e b s])
  next
    case True
    then obtain res s1 where sb: "SendBlock lz4 ident i False s = Inr (res, s1)"
      using "1.prems" by (cases "SendBlock lz4 ident i False s")
        (auto simp: prefetch_blocks.simps [of lz4 ident i e b s])
    have p1: "prefetches s1 = prefetches s"
      using sb by (rule prefetches_SendBlock)
    show ?thesis
    proof (cases res)
      case Sent
      then have "prefetch_blocks lz4 ident (i + 1) e (b - 1) s1 = Inr (i', b', s')"
        using "1.prems" True sb by (simp add: prefetch_blocks.simps [of lz4 ident i e b s])
      from "1.IH"(1) [OF True sb refl Sent this] p1 show ?thesis by simp
    next
      case Skipped
      then have "prefetch_blocks lz4 ident (i + 1) e b s1 = Inr (i', b', s')"
        using "1.prems" True sb by (simp add: prefetch_blocks.simps [of lz4 ident i e b s])
      from "1.IH"(3) [OF True sb refl _ _ this] Skipped p1 show ?thesis by simp
    next
      case Error
      then have "prefetch_blocks lz4 ident (i + 1) e b
                   (s1\<lparr> stderr := stderr s1 @ [FailedSendBlockPrefetch i] \<rparr>) = Inr (i', b', s')"
        using "1.prems" True sb by (simp add: prefetch_blocks.simps [of lz4 ident i e b s])
      from "1.IH"(2) [OF True sb refl _ _ this] Error p1 show ?thesis by simp
    qed
  qed
qed

text \<open>One pass through the body of \<^verbatim>\<open>while (!prefetches_.empty() && blocksToSend > 0)\<close>.
  The head's \<open>file\<close> pointer is dereferenced for \<^verbatim>\<open>file.id\<close>.\<close>

definition RunPrefetching_body ::
  "(byte list \<Rightarrow> byte list option) \<Rightarrow> int \<Rightarrow> IncrementalServer
     \<Rightarrow> fault + (int \<times> IncrementalServer)" where
  "RunPrefetching_body lz4 blocksToSend s =
     (let prefetch = hd (prefetches s) in
      if pfile prefetch \<ge> length (files s) then Inl OutOfBounds
      else
        (case prefetch_blocks lz4 (fid (files s ! pfile prefetch)) (overallIndex prefetch)
                (overallEnd prefetch) blocksToSend s of
           Inl flt \<Rightarrow> Inl flt
         | Inr (i, b, s1) \<Rightarrow>
             let p = (hd (prefetches s1))\<lparr> overallIndex := i \<rparr>
             in Inr (b, s1\<lparr> prefetches := (if prefetch_done p then tl (prefetches s1)
                                             else p # tl (prefetches s1)) \<rparr>)))"

lemma RunPrefetching_body_smaller:
  assumes "prefetches s \<noteq> []" and "RunPrefetching_body lz4 b s = Inr (b', s')"
  shows "length (prefetches s') + (if b' > 0 then 1 else 0) < length (prefetches s) + 1"
proof -
  let ?p = "hd (prefetches s)"
  from assms(2) obtain i s1 where
    pb: "prefetch_blocks lz4 (fid (files s ! pfile ?p)) (overallIndex ?p) (overallEnd ?p) b s
           = Inr (i, b', s1)" and
    s': "s' = s1\<lparr> prefetches :=
             (if prefetch_done ((hd (prefetches s1))\<lparr> overallIndex := i \<rparr>) then tl (prefetches s1)
              else (hd (prefetches s1))\<lparr> overallIndex := i \<rparr> # tl (prefetches s1)) \<rparr>"
    by (auto simp: RunPrefetching_body_def Let_def split: if_splits sum.splits prod.splits)
  from prefetch_blocks_exit [OF pb]
  have eq: "prefetches s1 = prefetches s" and ex: "b' \<le> 0 \<or> sint (overallEnd ?p) \<le> sint i"
    by simp_all
  show ?thesis
    using assms(1) ex by (cases "prefetches s") (auto simp: s' eq prefetch_done_def)
qed

function RunPrefetching_loop ::
  "(byte list \<Rightarrow> byte list option) \<Rightarrow> int \<Rightarrow> IncrementalServer \<Rightarrow> fault + IncrementalServer" where
  "RunPrefetching_loop lz4 blocksToSend s =
     (if prefetches s \<noteq> [] \<and> blocksToSend > 0
      then (case RunPrefetching_body lz4 blocksToSend s of
              Inl flt \<Rightarrow> Inl flt
            | Inr (b, s1) \<Rightarrow> RunPrefetching_loop lz4 b s1)
      else Inr s)"
  by pat_completeness auto
termination
proof (relation "measure (\<lambda>(lz4, b, s). length (prefetches s) + (if b > 0 then 1 else 0))",
       goal_cases)
  case 1
  show ?case by simp
next
  case (2 lz4 blocksToSend s x2 b s1)
  then show ?case
    using RunPrefetching_body_smaller [of s lz4 blocksToSend b s1] by auto
qed

declare RunPrefetching_loop.simps [simp del]

definition RunPrefetching ::
  "(byte list \<Rightarrow> byte list option) \<Rightarrow> IncrementalServer \<Rightarrow> fault + IncrementalServer" where
  "RunPrefetching lz4 s = RunPrefetching_loop lz4 kPrefetchBlocksPerIteration s"


subsection \<open>Server loop\<close>

text \<open>The statistics line of \<^verbatim>\<open>ServingComplete\<close> goes to the debug trace, which is not
  modelled; so is \<open>startTime\<close>, read only there.\<close>

definition ServingComplete :: "IncrementalServer \<Rightarrow> IncrementalServer" where
  "ServingComplete s = s\<lparr> servingComplete := True \<rparr>"

datatype outcome = Returned bool IncrementalServer | Running IncrementalServer

text \<open>The \<^verbatim>\<open>switch (request->request_type)\<close> of \<^verbatim>\<open>Serve\<close>: \<open>Returned\<close> is the \<^verbatim>\<open>return\<close>
  of the \<open>DESTROY\<close> case, \<open>Running\<close> a \<^verbatim>\<open>break\<close> out of the switch.\<close>

definition dispatch ::
  "(byte list \<Rightarrow> byte list option) \<Rightarrow> RequestCommand \<Rightarrow> IncrementalServer \<Rightarrow> fault + outcome" where
  "dispatch lz4 request s =
     (let fileId = file_id request; blockIdx = block_idx request in
      if request_type request = DESTROY then Inr (Returned True s)
      else if request_type request = SERVING_COMPLETE then Inr (Running (ServingComplete s))
      else if request_type request = BLOCK_MISSING then
        (let s1 = s\<lparr> missesCount := missesCount s + 1 \<rparr> in
         if sint fileId < 0 \<or> sint fileId \<ge> sint (word_of_nat (length (files s1)) :: FileId)
            \<or> sint blockIdx < 0
         then Inr (Running (s1\<lparr> stderr := stderr s1 @ [InvalidDataRequest fileId blockIdx] \<rparr>))
         else if nat (sint fileId) \<ge> length (files s1) then Inl OutOfBounds
         else if sint blockIdx \<ge>
                 sint (word_of_nat (length (sentBlocks (files s1 ! nat (sint fileId)))) :: BlockIdx)
         then Inr (Running (s1\<lparr> stderr := stderr s1 @ [InvalidDataRequest fileId blockIdx] \<rparr>))
         else
           (case SendBlock lz4 fileId blockIdx True s1 of
              Inl flt \<Rightarrow> Inl flt
            | Inr (res, s2) \<Rightarrow>
                if res = Error
                then Inr (Running (s2\<lparr> stderr := stderr s2 @ [FailedSendBlock blockIdx] \<rparr>))
                else if res = Sent
                then Inr (Running (s2\<lparr> missesSent := missesSent s2 + 1,
                                         prefetches :=
                                           PrefetchState_range (nat (sint fileId))
                                             (files s2 ! nat (sint fileId)) (blockIdx + 1) 7
                                           # prefetches s2 \<rparr>))
                else Inr (Running s2)))
      else if request_type request = PREFETCH then
        (if sint fileId < 0
         then Inr (Running (s\<lparr> stderr := stderr s @ [InvalidPrefetch fileId] \<rparr>))
         else if fileId \<in> prefetchedFiles s
         then Inr (Running (s\<lparr> stderr := stderr s @ [DuplicatePrefetch fileId] \<rparr>))
         else
           (let s1 = s\<lparr> prefetchedFiles := insert fileId (prefetchedFiles s) \<rparr> in
            if nat (sint fileId) \<ge> length (files s1) then Inl OutOfBounds
            else Inr (Running (s1\<lparr> prefetches :=
                        prefetches s1 @
                        [PrefetchState_full (nat (sint fileId)) (files s1 ! nat (sint fileId))] \<rparr>))))
      else Inr (Running (s\<lparr> stderr := stderr s @
                  [InvalidRequest (request_type request) fileId blockIdx] \<rparr>)))"

text \<open>The completion check at the head of the loop body.\<close>

definition all_files_sent :: "IncrementalServer \<Rightarrow> bool" where
  "all_files_sent s =
     list_all (\<lambda>f. sentBlocksCount f = word_of_nat (length (sentBlocks f))) (files s)"

definition completion_check :: "IncrementalServer \<Rightarrow> IncrementalServer" where
  "completion_check s =
     (if \<not> doneSent s \<and> prefetches s = [] \<and> all_files_sent s
      then (SendDone (s\<lparr> stderr := stderr s @ [AllFilesLoaded] \<rparr>))\<lparr> doneSent := True \<rparr>
      else s)"

text \<open>One pass through the body of \<^verbatim>\<open>while (true)\<close> in \<^verbatim>\<open>Serve\<close>.\<close>

definition Serve_body ::
  "(byte list \<Rightarrow> byte list option) \<Rightarrow> IncrementalServer \<Rightarrow> fault + outcome" where
  "Serve_body lz4 s =
     (let s1 = completion_check s;
          blocking = (prefetches s1 = []);
          s2 = (if blocking then Flush s1 else s1)
      in case ReadRequest blocking s2 of
           (None, s3) \<Rightarrow>
             (case RunPrefetching lz4 s3 of Inl flt \<Rightarrow> Inl flt | Inr s5 \<Rightarrow> Inr (Running s5))
         | (Some request, s3) \<Rightarrow>
             (case dispatch lz4 request s3 of
                Inl flt \<Rightarrow> Inl flt
              | Inr (Returned b s4) \<Rightarrow> Inr (Returned b s4)
              | Inr (Running s4) \<Rightarrow>
                  (case RunPrefetching lz4 s4 of
                     Inl flt \<Rightarrow> Inl flt
                   | Inr s5 \<Rightarrow> Inr (Running s5))))"

text \<open>The loop, cut after \<open>n\<close> passes: \<open>Running s\<close> is the state at the head of the next
  pass.\<close>

fun Serve_loop ::
  "(byte list \<Rightarrow> byte list option) \<Rightarrow> nat \<Rightarrow> IncrementalServer \<Rightarrow> fault + outcome" where
  "Serve_loop lz4 0 s = Inr (Running s)"
| "Serve_loop lz4 (Suc n) s =
     (case Serve_body lz4 s of
        Inl flt \<Rightarrow> Inl flt
      | Inr (Returned b s1) \<Rightarrow> Inr (Returned b s1)
      | Inr (Running s1) \<Rightarrow> Serve_loop lz4 n s1)"

text \<open>Modelled from the spec: \<^verbatim>\<open>SendOkay\<close> (adb_io) writes the four bytes \<^verbatim>\<open>OKAY\<close> to the
  connection; \<open>okay\<close> is whether that write succeeded.\<close>

definition Serve ::
  "(byte list \<Rightarrow> byte list option) \<Rightarrow> bool \<Rightarrow> nat \<Rightarrow> IncrementalServer \<Rightarrow> fault + outcome" where
  "Serve lz4 okay n s =
     (if \<not> okay then Inr (Returned False (s\<lparr> stderr := stderr s @ [ConnectionDead] \<rparr>))
      else Serve_loop lz4 n (s\<lparr> adb_writes := adb_writes s @ [[0x4F, 0x4B, 0x41, 0x59]] \<rparr>))"

text \<open>The loop of \<^verbatim>\<open>serve\<close> that fills the file table, for files whose \<^verbatim>\<open>stat\<close> and
  \<^verbatim>\<open>adb_open\<close> succeeded: path, \<^verbatim>\<open>st_size\<close> and descriptor of each, \<open>i\<close> the loop index.\<close>

fun open_files ::
  "nat \<Rightarrow> (string \<times> 64 word \<times> byte list option) list \<Rightarrow> fault + File list" where
  "open_files i [] = Inr []"
| "open_files i ((path, sz, h) # rest) =
     (case mk_File path (word_of_nat i) sz h of
        Inl flt \<Rightarrow> Inl flt
      | Inr f \<Rightarrow> (case open_files (Suc i) rest of Inl flt \<Rightarrow> Inl flt | Inr fs \<Rightarrow> Inr (f # fs)))"

subsection \<open>Observations\<close>

text \<open>The state an outcome carries; the members that the frame reader never writes, as one
  tuple; and the state in which \<^verbatim>\<open>Serve\<close> calls \<^verbatim>\<open>ReadRequest\<close>, after the completion check and
  the flush that precedes a blocking read.\<close>

fun outcome_state :: "outcome \<Rightarrow> IncrementalServer" where
  "outcome_state (Returned b s) = s"
| "outcome_state (Running s) = s"

definition server_core ::
  "IncrementalServer \<Rightarrow> File list \<times> PrefetchState list \<times> 32 word \<times> 32 word \<times> 64 word \<times> byte list
     \<times> bool \<times> FileId set \<times> bool \<times> 32 word \<times> 32 word \<times> byte list list \<times> ResponseHeader list" where
  "server_core s =
     (files s, prefetches s, compressed s, uncompressed s, sentSize s, pendingBlocks s,
      servingComplete s, prefetchedFiles s, doneSent s, missesCount s, missesSent s,
      adb_writes s, emitted s)"

definition reader_frame :: "IncrementalServer \<Rightarrow> IncrementalServer \<Rightarrow> bool" where
  "reader_frame s s' = (server_core s' = server_core s)"

definition before_read :: "IncrementalServer \<Rightarrow> IncrementalServer" where
  "before_read s =
     (let s1 = completion_check s in if prefetches s1 = [] then Flush s1 else s1)"

text \<open>A request that passes the validation of its case in \<^verbatim>\<open>Serve\<close>: for \<open>BLOCK_MISSING\<close> the
  negation of the four tests the source makes, for \<open>PREFETCH\<close> a file of the table that was not
  requested before.\<close>

definition accepted_miss :: "RequestCommand \<Rightarrow> IncrementalServer \<Rightarrow> bool" where
  "accepted_miss r s =
     (request_type r = BLOCK_MISSING \<and> 0 \<le> sint (file_id r) \<and>
      sint (file_id r) < sint (word_of_nat (length (files s)) :: FileId) \<and>
      0 \<le> sint (block_idx r) \<and>
      sint (block_idx r) <
        sint (word_of_nat (length (sentBlocks (files s ! nat (sint (file_id r))))) :: BlockIdx))"

definition accepted_prefetch :: "RequestCommand \<Rightarrow> IncrementalServer \<Rightarrow> bool" where
  "accepted_prefetch r s =
     (request_type r = PREFETCH \<and> 0 \<le> sint (file_id r) \<and>
      nat (sint (file_id r)) < length (files s) \<and> file_id r \<notin> prefetchedFiles s)"

text \<open>The number of true bits of a bitmap; a file whose counter agrees with its bitmap (and whose
  bitmap has a length that \<^verbatim>\<open>NumBlocks\<close> can hold, as the constructor guarantees); a file table
  of such files.\<close>

definition popcount :: "bool list \<Rightarrow> nat" where
  "popcount bs = length (filter id bs)"

definition count_coherent :: "File \<Rightarrow> bool" where
  "count_coherent f =
     (length (sentBlocks f) < 2 ^ 31 \<and> sint (sentBlocksCount f) = int (popcount (sentBlocks f)))"

definition files_coherent :: "IncrementalServer \<Rightarrow> bool" where
  "files_coherent s = list_all count_coherent (files s)"

text \<open>The end-of-stream sentinel among the response headers; how many of them the server has
  handed to the batcher; and the condition the completion check tests besides \<open>doneSent\<close>.\<close>

definition is_sentinel :: "ResponseHeader \<Rightarrow> bool" where
  "is_sentinel h = (hdr_file_id h = - 1 \<and> block_size h = 0)"

definition sentinels :: "IncrementalServer \<Rightarrow> nat" where
  "sentinels s = length (filter is_sentinel (emitted s))"

definition complete_and_idle :: "IncrementalServer \<Rightarrow> bool" where
  "complete_and_idle s = (prefetches s = [] \<and> all_files_sent s)"

subsection \<open>The connection as its reader sees it\<close>

text \<open>Modelled from the spec: the outbound framing,
  \<^verbatim>\<open>chunk := u32 BE length || length bytes of concatenated responses\<close> and
  \<^verbatim>\<open>response := ResponseHeader (10 bytes BE) || payload (block_size bytes)\<close>, read back from
  the bytes: \<open>decode_header\<close> reads the four fields of a header at the front of its argument,
  \<open>parse_records\<close> splits a byte sequence into response records and returns their headers
  (\<open>None\<close> if it is not a sequence of whole records).\<close>

definition decode_header :: "byte list \<Rightarrow> ResponseHeader" where
  "decode_header d =
     \<lparr> hdr_file_id = readBigEndian16 d, compression_type = readBigEndian16 (drop 2 d),
       hdr_block_idx = readBigEndian32 (drop 4 d), block_size = readBigEndian16 (drop 8 d) \<rparr>"

function parse_records :: "byte list \<Rightarrow> ResponseHeader list option" where
  "parse_records bs =
     (if bs = [] then Some []
      else if length bs < sizeof_ResponseHeader then None
      else if sint (block_size (decode_header bs)) < 0
              \<or> int (length bs) < int sizeof_ResponseHeader + sint (block_size (decode_header bs))
      then None
      else (case parse_records
                   (drop (sizeof_ResponseHeader + nat (sint (block_size (decode_header bs)))) bs) of
              None \<Rightarrow> None
            | Some hs \<Rightarrow> Some (decode_header bs # hs)))"
  by pat_completeness auto
termination
  by (relation "measure length") (auto simp: sizeof_ResponseHeader_def)

declare parse_records.simps [simp del]

text \<open>The four bytes \<^verbatim>\<open>OKAY\<close> of the handshake; the payloads of a list of chunks, each checked
  against its length prefix; the headers of the records that a list of chunks carries.\<close>

definition okay_token :: "byte list" where
  "okay_token = [0x4F, 0x4B, 0x41, 0x59]"

fun chunk_payloads :: "byte list list \<Rightarrow> byte list option" where
  "chunk_payloads [] = Some []"
| "chunk_payloads (c # cs) =
     (if sizeof_ChunkHeader \<le> length c
         \<and> readBigEndian32 c = word_of_nat (length c - sizeof_ChunkHeader)
      then (case chunk_payloads cs of
              None \<Rightarrow> None
            | Some bs \<Rightarrow> Some (drop sizeof_ChunkHeader c @ bs))
      else None)"

definition chunk_headers :: "byte list list \<Rightarrow> ResponseHeader list option" where
  "chunk_headers cs = (case chunk_payloads cs of None \<Rightarrow> None | Some bs \<Rightarrow> parse_records bs)"

text \<open>The bytes agree with the history of headers: the connection has received \<^verbatim>\<open>OKAY\<close> and then
  chunks that carry the records \<open>hs\<close>, the batcher holds the records \<open>ps\<close> behind its
  placeholder, and the headers handed to the batcher so far are \<open>hs\<close> followed by \<open>ps\<close>. In
  \<open>wire_inv\<close> no sentinel waits in the batcher.\<close>

definition wire_agrees ::
  "IncrementalServer \<Rightarrow> ResponseHeader list \<Rightarrow> ResponseHeader list \<Rightarrow> bool" where
  "wire_agrees s hs ps =
     (adb_writes s \<noteq> [] \<and> hd (adb_writes s) = okay_token
      \<and> (pendingBlocks s = [] \<or> sizeof_ChunkHeader \<le> length (pendingBlocks s))
      \<and> chunk_headers (tl (adb_writes s)) = Some hs
      \<and> parse_records (drop sizeof_ChunkHeader (pendingBlocks s)) = Some ps
      \<and> emitted s = hs @ ps)"

definition wire_inv :: "IncrementalServer \<Rightarrow> bool" where
  "wire_inv s = (\<exists>hs ps. wire_agrees s hs ps \<and> filter is_sentinel ps = [])"

section \<open>Example inputs\<close>

text \<open>A stand-in compressor, a five-byte file of one block and a fresh server over it.\<close>

definition example_lz4 :: "byte list \<Rightarrow> byte list option" where
  "example_lz4 src = Some (take 2 src)"

definition example_file :: File where
  "example_file = \<lparr> sentBlocks = [False], sentBlocksCount = 0, filepath = ''a'', fid = 0,
                     fsize = 5, fd = Some [1, 2, 3, 4, 5] \<rparr>"

definition example_server :: IncrementalServer where
  "example_server = new_IncrementalServer False [] [example_file]"

text \<open>The same server with the file's only block already sent.\<close>

definition example_sent_server :: IncrementalServer where
  "example_sent_server =
     example_server\<lparr> files := [example_file\<lparr> sentBlocks := [True], sentBlocksCount := 1 \<rparr>] \<rparr>"

text \<open>A server holding unflushed output and a pending prefetch, with a \<open>DESTROY\<close> request
  on the wire.\<close>

definition example_pending_server :: IncrementalServer where
  "example_pending_server =
     example_server\<lparr> pendingBlocks := [0, 0, 0, 0, 9],
                     prefetches := [\<lparr> pfile = 0, overallIndex = 0, overallEnd = 1 \<rparr>],
                     adb_in := [Data [0x49, 0x4E, 0x43, 0x52, 0, 3, 0, 0, 0, 0, 0, 0]] \<rparr>"

text \<open>Two requests for the example file.\<close>

definition example_miss :: RequestCommand where
  "example_miss = \<lparr> request_type = BLOCK_MISSING, file_id = 0, block_idx = 0 \<rparr>"

definition example_prefetch :: RequestCommand where
  "example_prefetch = \<lparr> request_type = PREFETCH, file_id = 0, block_idx = 0 \<rparr>"

text \<open>A launch with that one file, and a client that asks for its block 0 and then fails the
  poll.\<close>

definition example_args :: "(string \<times> 64 word \<times> byte list option) list" where
  "example_args = [(''a'', 5, Some [1, 2, 3, 4, 5])]"

definition example_inbound :: "event list" where
  "example_inbound = [Data [0x49, 0x4E, 0x43, 0x52, 0, 1, 0, 0, 0, 0, 0, 0], PollError]"

section \<open>Properties\<close>

subsection \<open>Constants and ranges\<close>

lemma kCompressBound_val: "kCompressBound = 4128"
  by (simp add: kCompressBound_def kBlockSize_def LZ4_COMPRESSBOUND_def)

lemma kCompressedSizeMax_val: "kCompressedSizeMax = 3891"
  by (simp add: kCompressedSizeMax_def kBlockSize_def)

lemma sint16_small: "0 \<le> n \<Longrightarrow> n < 32768 \<Longrightarrow> sint (word_of_int n :: 16 word) = n"
  by (simp add: sint_sbintrunc' signed_take_bit_int_eq_self)

lemma LZ4_compress_default_range:
  "LZ4_compress_default lz4 src cap = (r, c) \<Longrightarrow> 0 \<le> cap \<Longrightarrow>
     0 \<le> r \<and> r \<le> cap \<and> int (length c) = r"
  by (auto simp: LZ4_compress_default_def split: option.splits if_splits)

lemma ReadBlock_range:
  "ReadBlock f i = (n, raw) \<Longrightarrow> n \<le> 4096 \<and> (0 \<le> n \<longrightarrow> int (length raw) = n)"
  by (auto simp: ReadBlock_def adb_pread_def kBlockSize_def Let_def split: option.splits if_splits)

lemma emitted_Flush: "emitted (Flush s) = emitted s"
  by (simp add: Flush_def Let_def)

lemma emitted_Send: "emitted (Send d fl s) = emitted s"
  by (simp add: Send_def Let_def emitted_Flush)

subsection \<open>Compression choice\<close>


text \<open>The packed header has \<^verbatim>\<open>sizeof(ResponseHeader)\<close> bytes, and the payload handed to the
  batcher with it has exactly \<open>block_size\<close> bytes.\<close>

lemma length_header_bytes: "length (header_bytes h) = sizeof_ResponseHeader"
  by (simp add: header_bytes_def toBigEndian16_def toBigEndian32_def sizeof_ResponseHeader_def)

lemma choose_response_payload:
  assumes "ReadBlock f blockIdx = (n, raw)" and "0 \<le> n"
    and "choose_response lz4 fileId blockIdx n raw = (h, payload)"
  shows "int (length payload) = sint (block_size h)"
proof -
  obtain r c where lz: "LZ4_compress_default lz4 raw kCompressBound = (r, c)"
    by (cases "LZ4_compress_default lz4 raw kCompressBound")
  have n: "n \<le> 4096" "int (length raw) = n"
    using ReadBlock_range [OF assms(1)] assms(2) by simp_all
  have r: "0 \<le> r" "r \<le> 4128" "int (length c) = r"
    using LZ4_compress_default_range [OF lz] by (simp_all add: kCompressBound_val)
  have sr: "sint (word_of_int r :: 16 word) = r"
    using r by (intro sint16_small) auto
  have sn: "sint (word_of_int n :: 16 word) = n"
    using assms(2) n by (intro sint16_small) auto
  show ?thesis
    using assms(3) lz sr sn n r
    by (auto simp: choose_response_def Let_def split: if_splits)
qed



subsection \<open>Output batcher\<close>

lemma placeholder_bytes: "replicate sizeof_ChunkHeader (0 :: byte) = [0, 0, 0, 0]"
  by (simp add: sizeof_ChunkHeader_def numeral_eq_Suc)

lemma pending_shape_Send:
  "pendingBlocks s = [] \<or> sizeof_ChunkHeader \<le> length (pendingBlocks s) \<Longrightarrow>
   pendingBlocks (Send d fl s) = [] \<or> sizeof_ChunkHeader \<le> length (pendingBlocks (Send d fl s))"
  by (auto simp: Send_def Flush_def Let_def sizeof_ChunkHeader_def)

text \<open>
  Claim C7, as amended. The batcher holds either nothing or the 4-byte placeholder followed
  by the payload. \<^verbatim>\<open>Send\<close> appends the new bytes to the payload and emits the chunk (big-endian
  payload length, then the payload) exactly when \<open>flush\<close> is set or placeholder plus payload
  exceed 126976 bytes, that is, when the payload exceeds 126972 bytes; otherwise nothing is
  written and the bytes stay buffered.
\<close>

theorem Send_flush_rule:
  assumes "pendingBlocks s = [] \<or> sizeof_ChunkHeader \<le> length (pendingBlocks s)"
  shows "if fl \<or> 126976 < sizeof_ChunkHeader + length (drop sizeof_ChunkHeader (pendingBlocks s) @ d)
         then adb_writes (Send d fl s) =
                adb_writes s @
                [toBigEndian32 (word_of_nat (length (drop sizeof_ChunkHeader (pendingBlocks s) @ d)))
                 @ drop sizeof_ChunkHeader (pendingBlocks s) @ d]
              \<and> pendingBlocks (Send d fl s) = []
         else adb_writes (Send d fl s) = adb_writes s
              \<and> length (pendingBlocks (Send d fl s)) =
                  sizeof_ChunkHeader + length (drop sizeof_ChunkHeader (pendingBlocks s) @ d)
              \<and> drop sizeof_ChunkHeader (pendingBlocks (Send d fl s)) =
                  drop sizeof_ChunkHeader (pendingBlocks s) @ d"
proof -
  define acc where
    "acc = (if pendingBlocks s = [] then replicate sizeof_ChunkHeader 0 else pendingBlocks s) @ d"
  define payload where "payload = drop sizeof_ChunkHeader (pendingBlocks s) @ d"
  have len: "length acc = sizeof_ChunkHeader + length payload"
    using assms by (auto simp: acc_def payload_def)
  have dr: "drop sizeof_ChunkHeader acc = payload"
    using assms by (auto simp: acc_def payload_def)
  have ne: "acc \<noteq> []"
    using len by (auto simp: sizeof_ChunkHeader_def)
  have S: "Send d fl s =
             (if fl \<or> kChunkFlushSize < length acc then Flush (s\<lparr> pendingBlocks := acc \<rparr>)
              else s\<lparr> pendingBlocks := acc \<rparr>)"
    by (simp add: Send_def Let_def acc_def)
  have F: "Flush (s\<lparr> pendingBlocks := acc \<rparr>) =
             s\<lparr> adb_writes := adb_writes s @ [toBigEndian32 (word_of_nat (length payload)) @ payload],
                sentSize := sentSize s + word_of_nat (length acc), pendingBlocks := [] \<rparr>"
    using ne by (simp add: Flush_def Let_def dr len)
  show ?thesis
    unfolding payload_def [symmetric] S
    by (simp add: F len dr kChunkFlushSize_def)
qed

theorem Send_flush_rule_witness:
  "(pendingBlocks example_server = [] \<or> sizeof_ChunkHeader \<le> length (pendingBlocks example_server))
   \<and> adb_writes (Send [1, 2, 3] False example_server) = []
   \<and> drop sizeof_ChunkHeader (pendingBlocks (Send [1, 2, 3] False example_server)) = [1, 2, 3]
   \<and> adb_writes (Send [1, 2, 3] True example_server) = [[0, 0, 0, 3, 1, 2, 3]]
   \<and> adb_writes (Send (replicate 126973 7) False example_server)
       = [toBigEndian32 126973 @ replicate 126973 7]"
proof -
  have p: "pendingBlocks example_server = []"
    by (simp add: example_server_def new_IncrementalServer_def)
  have w: "adb_writes example_server = []"
    by (simp add: example_server_def new_IncrementalServer_def)
  have a: "pendingBlocks example_server = [] \<or> sizeof_ChunkHeader \<le> length (pendingBlocks example_server)"
    using p by simp
  have 1: "adb_writes (Send [1, 2, 3] False example_server) = []
           \<and> drop sizeof_ChunkHeader (pendingBlocks (Send [1, 2, 3] False example_server)) = [1, 2, 3]"
    using Send_flush_rule [OF a, of False "[1, 2, 3]"] p w by (simp add: sizeof_ChunkHeader_def)
  have 3: "adb_writes (Send [1, 2, 3] True example_server) = [[0, 0, 0, 3, 1, 2, 3]]"
    using Send_flush_rule [OF a, of True "[1, 2, 3]"] p w
    by (simp add: sizeof_ChunkHeader_def toBigEndian32_def)
  have 4: "adb_writes (Send (replicate 126973 7) False example_server)
       = [toBigEndian32 126973 @ replicate 126973 7]"
    using Send_flush_rule [OF a, of False "replicate 126973 7"] p w
    by (simp add: sizeof_ChunkHeader_def)
  from a 1 3 4 show ?thesis by simp
qed

text \<open>
  Claim C7 as stated fails: with an empty batcher, no \<open>flush\<close> and 126973 bytes to send, the
  payload does not exceed 126976 bytes, yet the chunk is emitted.
\<close>

theorem Send_payload_threshold_counterexample:
  "\<not> (adb_writes (Send (replicate 126973 7) False example_server) \<noteq> adb_writes example_server
       \<longleftrightarrow> (False \<or> 126976 < length (replicate 126973 (7 :: byte))))"
  by (simp add: Send_def Flush_def Let_def sizeof_ChunkHeader_def kChunkFlushSize_def
        example_server_def new_IncrementalServer_def)

subsection \<open>Block sender: rejected and repeated blocks\<close>

text \<open>
  Claim C5, as amended. For a file of the table: a block index at or beyond the file's block
  count makes \<^verbatim>\<open>SendBlock\<close> return \<open>Error\<close>, and the state changes only by the diagnostic
  line on \<open>stderr\<close> (nothing is sent, bitmap and counter stay); a block index in range whose
  bit is already set makes it return \<open>Skipped\<close> with the state untouched.
\<close>

theorem SendBlock_past_end_or_sent:
  assumes "0 \<le> sint fileId" and "nat (sint fileId) < length (files s)"
  shows "(int (length (sentBlocks (files s ! nat (sint fileId)))) \<le> sint blockIdx \<longrightarrow>
            SendBlock lz4 fileId blockIdx flush s =
              Inr (Error, s\<lparr> stderr := stderr s @
                     [FailedPastEnd (filepath (files s ! nat (sint fileId))) blockIdx] \<rparr>))
       \<and> (0 \<le> sint blockIdx \<and> sint blockIdx < int (length (sentBlocks (files s ! nat (sint fileId))))
            \<and> sentBlocks (files s ! nat (sint fileId)) ! nat (sint blockIdx) \<longrightarrow>
            SendBlock lz4 fileId blockIdx flush s = Inr (Skipped, s))"
  using assms by (simp add: SendBlock_def Let_def)

theorem SendBlock_past_end_or_sent_witness:
  "0 \<le> sint (0 :: FileId) \<and> nat (sint (0 :: FileId)) < length (files example_server)
   \<and> int (length (sentBlocks (files example_server ! nat (sint (0 :: FileId))))) \<le> sint (1 :: BlockIdx)
   \<and> SendBlock example_lz4 0 1 False example_server =
        Inr (Error, example_server\<lparr> stderr := [FailedPastEnd ''a'' 1] \<rparr>)
   \<and> nat (sint (0 :: FileId)) < length (files example_sent_server)
   \<and> sentBlocks (files example_sent_server ! nat (sint (0 :: FileId))) ! nat (sint (0 :: BlockIdx))
   \<and> SendBlock example_lz4 0 0 False example_sent_server = Inr (Skipped, example_sent_server)"
proof -
  have f: "files example_server = [example_file]"
    and e: "stderr example_server = []"
    and g: "files example_sent_server = [example_file\<lparr> sentBlocks := [True], sentBlocksCount := 1 \<rparr>]"
    by (simp_all add: example_sent_server_def example_server_def new_IncrementalServer_def)
  have h: "sentBlocks example_file = [False]" "filepath example_file = ''a''"
    by (simp_all add: example_file_def)
  have a: "0 \<le> sint (0 :: FileId)" by simp
  have b: "nat (sint (0 :: FileId)) < length (files example_server)" by (simp add: f)
  have c: "nat (sint (0 :: FileId)) < length (files example_sent_server)" by (simp add: g)
  from SendBlock_past_end_or_sent [OF a b, of 1 example_lz4 False]
       SendBlock_past_end_or_sent [OF a c, of 0 example_lz4 False]
  show ?thesis
    by (simp add: f g h e)
qed

text \<open>
  Claim C5 as stated fails below the range: \<^verbatim>\<open>SendBlock\<close> compares the index with the block
  count only, so a negative index on a file of the table reaches \<^verbatim>\<open>file.sentBlocks[blockIdx]\<close>
  and the result is not \<open>Error\<close>. \<^verbatim>\<open>Serve\<close> rejects negative indices before the call.
\<close>

theorem SendBlock_negative_index_counterexample:
  "0 \<le> sint (0 :: FileId) \<and> nat (sint (0 :: FileId)) < length (files example_server)
   \<and> sint (- 1 :: BlockIdx) < 0
   \<and> SendBlock example_lz4 0 (- 1) False example_server = Inl OutOfBounds"
  by (simp add: SendBlock_def Let_def example_server_def new_IncrementalServer_def
        example_file_def)

subsection \<open>Invalid requests\<close>

lemmas frame_reader_defs =
  SkipToRequest.simps SkipToRequest_body_def scan_and_forward_def scan_magic.simps
  readBigEndian32_def readBigEndian16_def INCR_def adb_read_def kReadBufferSize_def
  sizeof_INCR_def sizeof_RequestCommand_def erase_buffer_head_def write_output_def
  ReadRequest_def

lemmas request_types = PREFETCH_def DESTROY_def SERVING_COMPLETE_def BLOCK_MISSING_def

lemmas serve_defs =
  Serve_body_def completion_check_def all_files_sent_def Flush_def dispatch_def
  new_IncrementalServer_def example_file_def Let_def

text \<open>
  Claim C6 fails on the code. A \<open>PREFETCH\<close> request is checked for a negative \<open>file_id\<close> and
  for a duplicate only; with one file in the table, the request bytes
  \<^verbatim>\<open>49 4E 43 52 00 02 00 05 00 00 00 00\<close> (\<open>PREFETCH\<close>, \<open>file_id = 5\<close>) are not dropped: the server
  records the id as prefetched and evaluates \<^verbatim>\<open>files_[5]\<close>, outside the table.
\<close>

theorem Serve_PREFETCH_out_of_range:
  "Serve_loop example_lz4 1
     (new_IncrementalServer False [Data [0x49, 0x4E, 0x43, 0x52, 0, 2, 0, 5, 0, 0, 0, 0]]
        [example_file])
     = Inl OutOfBounds"
  by (simp add: frame_reader_defs request_types serve_defs)

lemma dispatch_PREFETCH_out_of_range:
  "dispatch example_lz4 \<lparr> request_type = PREFETCH, file_id = 5, block_idx = 0 \<rparr> example_server
     = Inl OutOfBounds"
  by (simp add: dispatch_def Let_def request_types example_server_def new_IncrementalServer_def)

subsection \<open>Frame reader: what it leaves alone\<close>

lemma server_core_reader_updates:
  "server_core (s\<lparr> buffer := b \<rparr>) = server_core s"
  "server_core (s\<lparr> adb_in := i \<rparr>) = server_core s"
  "server_core (s\<lparr> output_bytes := ob \<rparr>) = server_core s"
  "server_core (s\<lparr> stderr := e \<rparr>) = server_core s"
  "server_core (erase_buffer_head n s) = server_core s"
  "server_core (write_output d s) = server_core s"
  by (simp_all add: server_core_def erase_buffer_head_def write_output_def)

lemma reader_frame_fields:
  assumes "reader_frame s s'"
  shows "files s' = files s" "prefetches s' = prefetches s" "compressed s' = compressed s"
    "uncompressed s' = uncompressed s" "sentSize s' = sentSize s"
    "pendingBlocks s' = pendingBlocks s" "servingComplete s' = servingComplete s"
    "prefetchedFiles s' = prefetchedFiles s" "doneSent s' = doneSent s"
    "missesCount s' = missesCount s" "missesSent s' = missesSent s"
    "adb_writes s' = adb_writes s" "emitted s' = emitted s"
  using assms by (simp_all add: reader_frame_def server_core_def)

lemma reader_frame_trans: "reader_frame s s1 \<Longrightarrow> reader_frame s1 s2 \<Longrightarrow> reader_frame s s2"
  by (simp add: reader_frame_def)

lemma reader_frame_scan: "scan_and_forward s = (m, s1) \<Longrightarrow> reader_frame s s1"
  by (auto simp: scan_and_forward_def reader_frame_def server_core_reader_updates
           split: prod.splits if_splits)

lemma reader_frame_body:
  "SkipToRequest_body sz bl s = Inl (r, s') \<Longrightarrow> reader_frame s s'"
  "SkipToRequest_body sz bl s = Inr s'' \<Longrightarrow> reader_frame s s''"
proof -
  obtain m s1 where sf: "scan_and_forward s = (m, s1)"
    by (cases "scan_and_forward s")
  have f1: "server_core s1 = server_core s"
    using reader_frame_scan [OF sf] by (simp add: reader_frame_def)
  show "SkipToRequest_body sz bl s = Inl (r, s') \<Longrightarrow> reader_frame s s'"
    unfolding SkipToRequest_body_def sf reader_frame_def
    by (auto simp: Let_def server_core_reader_updates f1
             split: if_splits list.splits event.splits prod.splits)
  show "SkipToRequest_body sz bl s = Inr s'' \<Longrightarrow> reader_frame s s''"
    unfolding SkipToRequest_body_def sf reader_frame_def
    by (auto simp: Let_def server_core_reader_updates f1
             split: if_splits list.splits event.splits prod.splits)
qed

lemma reader_frame_SkipToRequest:
  "SkipToRequest sz bl s = (r, s') \<Longrightarrow> reader_frame s s'"
proof (induction sz bl s arbitrary: r s' rule: SkipToRequest.induct)
  case (1 sz bl s)
  show ?case
  proof (cases "SkipToRequest_body sz bl s")
    case (Inl res)
    then show ?thesis
      using "1.prems" reader_frame_body(1) [of sz bl s r s']
      by (simp add: SkipToRequest.simps [of sz bl s])
  next
    case (Inr s1)
    then have "SkipToRequest sz bl s1 = (r, s')"
      using "1.prems" by (simp add: SkipToRequest.simps [of sz bl s])
    from "1.IH" [OF Inr this] reader_frame_body(2) [OF Inr] show ?thesis
      by (rule reader_frame_trans [rotated])
  qed
qed

lemma reader_frame_ReadRequest:
  "ReadRequest bl s = (r, s') \<Longrightarrow> reader_frame s s'"
  by (auto simp: ReadRequest_def split: prod.splits if_splits dest: reader_frame_SkipToRequest)

text \<open>
  Claim C10. When the request read in a pass of the loop is \<open>DESTROY\<close> (received, or synthesized
  by \<^verbatim>\<open>ReadRequest\<close> on a terminal read), the pass returns success at once, and so does
  \<^verbatim>\<open>Serve\<close>: nothing is written to the connection after the read, and the bytes that were in the
  pending-output buffer when the read began are still there, unwritten, when the server
  returns.
\<close>

theorem Serve_body_DESTROY:
  assumes "ReadRequest (prefetches (before_read s) = []) (before_read s) = (Some request, s3)"
    and "request_type request = DESTROY"
  shows "Serve_body lz4 s = Inr (Returned True s3)
       \<and> Serve_loop lz4 (Suc n) s = Inr (Returned True s3)
       \<and> adb_writes s3 = adb_writes (before_read s)
       \<and> pendingBlocks s3 = pendingBlocks (before_read s)"
proof -
  have fr: "reader_frame (before_read s) s3"
    using assms(1) by (rule reader_frame_ReadRequest)
  have d: "dispatch lz4 request s3 = Inr (Returned True s3)"
    using assms(2) by (simp add: dispatch_def Let_def)
  have bl: "(prefetches (before_read s) = []) = (prefetches (completion_check s) = [])"
    by (simp add: before_read_def Let_def prefetches_Flush)
  have rr: "ReadRequest (prefetches (completion_check s) = [])
              (if prefetches (completion_check s) = [] then Flush (completion_check s)
               else completion_check s) = (Some request, s3)"
    using assms(1) unfolding bl by (simp add: before_read_def Let_def)
  have b: "Serve_body lz4 s = Inr (Returned True s3)"
    by (simp add: Serve_body_def Let_def rr d)
  from b reader_frame_fields [OF fr] show ?thesis by simp
qed

lemmas prefetch_defs =
  RunPrefetching_def RunPrefetching_loop.simps RunPrefetching_body_def prefetch_blocks.simps
  kPrefetchBlocksPerIteration_def prefetch_done_def

theorem Serve_body_DESTROY_witness:
  "\<exists>request s3.
     ReadRequest (prefetches (before_read example_pending_server) = [])
       (before_read example_pending_server) = (Some request, s3)
     \<and> request_type request = DESTROY
     \<and> Serve_body example_lz4 example_pending_server = Inr (Returned True s3)
     \<and> adb_writes s3 = [] \<and> pendingBlocks s3 = [0, 0, 0, 0, 9]"
proof -
  have br: "before_read example_pending_server = example_pending_server"
    by (simp add: before_read_def completion_check_def example_pending_server_def Let_def)
  have "\<exists>s3. ReadRequest (prefetches (before_read example_pending_server) = [])
           (before_read example_pending_server)
         = (Some \<lparr> request_type = DESTROY, file_id = 0, block_idx = 0 \<rparr>, s3)"
    unfolding br
    by (simp add: example_pending_server_def example_server_def new_IncrementalServer_def
          frame_reader_defs DESTROY_def Let_def)
  then obtain s3 where
    rr: "ReadRequest (prefetches (before_read example_pending_server) = [])
           (before_read example_pending_server)
         = (Some \<lparr> request_type = DESTROY, file_id = 0, block_idx = 0 \<rparr>, s3)" ..
  have p: "pendingBlocks (before_read example_pending_server) = [0, 0, 0, 0, 9]"
    and w: "adb_writes (before_read example_pending_server) = []"
    unfolding br
    by (simp_all add: example_pending_server_def example_server_def new_IncrementalServer_def)
  from Serve_body_DESTROY [OF rr, of example_lz4 0] rr p w show ?thesis
    by auto
qed

subsection \<open>Idle timeout\<close>

lemma Serve_loop_numeral:
  "Serve_loop lz4 (numeral k) s =
     (case Serve_body lz4 s of
        Inl flt \<Rightarrow> Inl flt
      | Inr (Returned b s1) \<Rightarrow> Inr (Returned b s1)
      | Inr (Running s1) \<Rightarrow> Serve_loop lz4 (pred_numeral k) s1)"
  by (simp add: numeral_eq_Suc)

text \<open>
  Claim C8 fails on the code. \<^verbatim>\<open>servingComplete_\<close> is declared without an initializer and no
  constructor sets it, while its comment reads "True when client notifies that all the data
  has been received". When the object's storage happens to hold a true value, the first
  blocking read that times out ends the session with a synthesized \<open>DESTROY\<close>, although no
  \<open>SERVING_COMPLETE\<close> request (no request at all) was processed. With a false value the same
  timeout is only reported and the loop goes on.
\<close>

theorem Serve_timeout_uninitialized_flag:
  "(\<exists>s. Serve example_lz4 True 1 (new_IncrementalServer True [Timeout] [example_file])
          = Inr (Returned True s) \<and> stderr s = [TimedOut])
   \<and> (\<exists>s. Serve example_lz4 True 1 (new_IncrementalServer False [Timeout] [example_file])
          = Inr (Running s) \<and> stderr s = [TimedOut])"
  by (simp add: Serve_def frame_reader_defs request_types serve_defs prefetch_defs)

text \<open>Once the flag is set by a request, it decides: a blocking read that times out is
  terminal exactly when \<open>servingComplete\<close> holds.\<close>

lemma ReadRequest_blocking_timeout:
  assumes "scan_and_forward s = (m, s1)"
    and "\<not> (m \<and> sizeof_RequestCommand + sizeof_INCR \<le> length (buffer s1))"
    and "adb_in s = Timeout # es"
  shows "fst (ReadRequest True s) =
           (if servingComplete s
            then Some \<lparr> request_type = DESTROY, file_id = 0, block_idx = 0 \<rparr> else None)"
proof -
  have in1: "adb_in s1 = Timeout # es"
    using adb_in_scan_and_forward [OF assms(1)] assms(3) by simp
  have sc: "servingComplete s1 = servingComplete s"
    using reader_frame_fields(7) [OF reader_frame_scan [OF assms(1)]] .
  show ?thesis
    using assms(2) in1 sc
    by (auto simp: ReadRequest_def SkipToRequest.simps [of _ _ s] SkipToRequest_body_def
          assms(1) Let_def write_output_def sizeof_RequestCommand_def)
qed

subsection \<open>Routing of inbound bytes\<close>

text \<open>
  Claim C9 fails on the code. On a poll timeout \<^verbatim>\<open>SkipToRequest\<close> writes the whole of \<^verbatim>\<open>buffer_\<close>
  to the log sink and keeps it, where the scan just above writes and erases. The client sends
  \<^verbatim>\<open>ab\<close>, stays silent for one poll, then sends \<^verbatim>\<open>cdefgh\<close>: eight bytes arrive, the log sink
  receives \<^verbatim>\<open>ab\<close>, \<^verbatim>\<open>abcd\<close> and \<^verbatim>\<open>efgh\<close>, ten bytes with \<^verbatim>\<open>ab\<close> twice, and \<^verbatim>\<open>efgh\<close> is still in the
  buffer to be scanned again.
\<close>

theorem Serve_timeout_duplicates_log_bytes:
  "\<exists>s. Serve_loop example_lz4 2
          (new_IncrementalServer False
             [Data [0x61, 0x62], Timeout, Data [0x63, 0x64, 0x65, 0x66, 0x67, 0x68], Timeout]
             [example_file])
        = Inr (Running s)
      \<and> output_bytes s = [0x61, 0x62, 0x61, 0x62, 0x63, 0x64, 0x65, 0x66, 0x67, 0x68]
      \<and> buffer s = [0x65, 0x66, 0x67, 0x68] \<and> adb_in s = []"
  by (simp add: Serve_loop_numeral frame_reader_defs request_types serve_defs prefetch_defs)

text \<open>The same path sends request bytes both ways: the first six bytes of a \<open>DESTROY\<close> record
  are logged at the timeout and consumed as part of the request when the rest arrives.\<close>

lemma Serve_timeout_logs_request_bytes:
  "\<exists>s. Serve_loop example_lz4 2
          (new_IncrementalServer False
             [Data [0x49, 0x4E, 0x43, 0x52, 0, 3], Timeout, Data [0, 0, 0, 0, 0, 0]]
             [example_file])
        = Inr (Returned True s)
      \<and> output_bytes s = [0x49, 0x4E, 0x43, 0x52, 0, 3] \<and> buffer s = [] \<and> adb_in s = []"
  by (simp add: Serve_loop_numeral frame_reader_defs request_types serve_defs prefetch_defs)

subsection \<open>What the block sender changes\<close>

lemma Flush_fields:
  "files (Flush s) = files s" "doneSent (Flush s) = doneSent s"
  "prefetchedFiles (Flush s) = prefetchedFiles s" "stderr (Flush s) = stderr s"
  "servingComplete (Flush s) = servingComplete s" "missesCount (Flush s) = missesCount s"
  "missesSent (Flush s) = missesSent s" "buffer (Flush s) = buffer s"
  "adb_in (Flush s) = adb_in s" "output_bytes (Flush s) = output_bytes s"
  by (simp_all add: Flush_def Let_def)

lemma Send_fields:
  "files (Send d fl s) = files s" "doneSent (Send d fl s) = doneSent s"
  "prefetchedFiles (Send d fl s) = prefetchedFiles s" "stderr (Send d fl s) = stderr s"
  "servingComplete (Send d fl s) = servingComplete s" "missesCount (Send d fl s) = missesCount s"
  "missesSent (Send d fl s) = missesSent s" "buffer (Send d fl s) = buffer s"
  "adb_in (Send d fl s) = adb_in s" "output_bytes (Send d fl s) = output_bytes s"
  by (simp_all add: Send_def Let_def Flush_fields)

text \<open>What a call of \<^verbatim>\<open>SendBlock\<close> that returns does to the file table and the history.\<close>

lemma SendBlock_effect:
  assumes "SendBlock lz4 ident i fl s = Inr (res, s1)"
  shows "prefetches s1 = prefetches s \<and> doneSent s1 = doneSent s
       \<and> 0 \<le> sint ident \<and> nat (sint ident) < length (files s)
       \<and> (res \<noteq> Sent \<longrightarrow> files s1 = files s \<and> emitted s1 = emitted s)
       \<and> (res = Sent \<longrightarrow>
            0 \<le> sint i \<and> nat (sint i) < length (sentBlocks (files s ! nat (sint ident)))
            \<and> \<not> sentBlocks (files s ! nat (sint ident)) ! nat (sint i)
            \<and> files s1 = (files s)[nat (sint ident) :=
                 (files s ! nat (sint ident))
                   \<lparr> sentBlocks := (sentBlocks (files s ! nat (sint ident)))[nat (sint i) := True],
                     sentBlocksCount := sentBlocksCount (files s ! nat (sint ident)) + 1 \<rparr>]
            \<and> (\<exists>h. emitted s1 = emitted s @ [h] \<and> hdr_file_id h = ident))"
proof -
  obtain n raw where rb: "ReadBlock (files s ! nat (sint ident)) i = (n, raw)"
    by (cases "ReadBlock (files s ! nat (sint ident)) i")
  obtain h payload where ch: "choose_response lz4 ident i n raw = (h, payload)"
    by (cases "choose_response lz4 ident i n raw")
  have hid: "hdr_file_id h = ident"
    using ch by (auto simp: choose_response_def Let_def split: prod.splits if_splits)
  show ?thesis
    using assms rb ch hid
    by (auto simp: SendBlock_def Let_def Send_fields prefetches_Send emitted_Send
             split: if_splits)
qed

lemma SendBlock_block_counts:
  assumes "SendBlock lz4 ident i fl s = Inr (res, s1)"
  shows "map (\<lambda>f. length (sentBlocks f)) (files s1) = map (\<lambda>f. length (sentBlocks f)) (files s)"
proof (cases "res = Sent")
  case False
  then show ?thesis using SendBlock_effect [OF assms] by simp
next
  case True
  then show ?thesis
    using SendBlock_effect [OF assms]
    by (simp add: map_update list_update_same_conv)
qed


lemma sint_le_uint: "sint (w :: 'a::len word) \<le> uint w"
proof -
  have "- (2 ^ (LENGTH('a) - 1)) \<le> (0 :: int)" by simp
  also have "0 \<le> uint w" by simp
  finally show ?thesis
    by (simp add: sint_uint signed_take_bit_int_less_eq_self_iff)
qed

lemma uint_of_nat_le: "uint (word_of_nat n :: 'a::len word) \<le> int n"
  by (metis le_unat_uoi uint_nat nat_int_comparison(3) nat_le_linear)

lemma sint_of_nat_le: "sint (word_of_nat n :: 'a::len word) \<le> int n"
  using sint_le_uint [of "word_of_nat n :: 'a word"] uint_of_nat_le [of n, where 'a = 'a]
  by linarith

lemma sint_of_nat_small:
  assumes "n < 2 ^ (LENGTH('a) - 1)"
  shows "sint (word_of_nat n :: 'a::len word) = int n"
proof -
  have "int n < 2 ^ (LENGTH('a) - 1)"
    using assms by (metis of_nat_less_iff of_nat_numeral of_nat_power)
  moreover have "- (2 ^ (LENGTH('a) - 1)) \<le> int n"
    by (smt (verit) of_nat_0_le_iff zero_le_power)
  ultimately have "signed_take_bit (LENGTH('a) - 1) (int n) = int n"
    by (intro signed_take_bit_int_eq_self)
  moreover have "(word_of_nat n :: 'a word) = word_of_int (int n)" by simp
  ultimately show ?thesis by (simp only: sint_sbintrunc')
qed

text \<open>An index that passes the comparison with the narrowed size is inside the vector.\<close>

lemma index_below_narrowed_size:
  assumes "0 \<le> sint (i :: 'a::len word)" and "sint i < sint (word_of_nat n :: 'a word)"
  shows "nat (sint i) < n"
  using assms sint_of_nat_le [of n, where 'a = 'a] by linarith

subsection \<open>Read-ahead and prefetch requests\<close>

text \<open>
  Claim C4. For an accepted \<open>BLOCK_MISSING\<close> request whose \<^verbatim>\<open>SendBlock\<close> returns \<open>Sent\<close>, the
  dispatch puts one prefetch state at the front of the queue: it points at the same file, its
  cursor is \<open>block_idx + 1\<close> (also as integers: the sum cannot overflow) and its end is the
  smaller of \<open>block_idx + 8\<close> and the block count, computed in \<^verbatim>\<open>BlockIdx\<close>; for files of fewer
  than \<open>2^31 - 8\<close> blocks that is the integer minimum. For an accepted \<open>PREFETCH\<close> request the
  dispatch appends one state at the back, with cursor 0 and end the file's block count.
\<close>

theorem dispatch_enqueues_prefetch:
  "(accepted_miss r s \<and>
    SendBlock lz4 (file_id r) (block_idx r) True (s\<lparr> missesCount := missesCount s + 1 \<rparr>)
      = Inr (Sent, s2) \<longrightarrow>
      (\<exists>s' p. dispatch lz4 r s = Inr (Running s') \<and> prefetches s' = p # prefetches s \<and>
         pfile p = nat (sint (file_id r)) \<and> pfile p < length (files s) \<and>
         overallIndex p = block_idx r + 1 \<and> sint (overallIndex p) = sint (block_idx r) + 1 \<and>
         overallEnd p =
           (let block_count = word_of_nat (length (sentBlocks (files s ! pfile p))) :: BlockIdx
            in if sint block_count < sint (block_idx r + 8) then block_count
               else block_idx r + 8) \<and>
         (length (sentBlocks (files s ! pfile p)) < 2 ^ 31 - 8 \<longrightarrow>
            sint (overallEnd p) =
              min (sint (block_idx r) + 8) (int (length (sentBlocks (files s ! pfile p)))))))
   \<and> (accepted_prefetch r s \<longrightarrow>
      (\<exists>s' p. dispatch lz4 r s = Inr (Running s') \<and> prefetches s' = prefetches s @ [p] \<and>
         pfile p = nat (sint (file_id r)) \<and> overallIndex p = 0 \<and>
         overallEnd p = word_of_nat (length (sentBlocks (files s ! pfile p)))))"
proof (intro conjI impI)
  assume a: "accepted_miss r s \<and>
    SendBlock lz4 (file_id r) (block_idx r) True (s\<lparr> missesCount := missesCount s + 1 \<rparr>)
      = Inr (Sent, s2)"
  let ?fi = "nat (sint (file_id r))"
  let ?s1 = "s\<lparr> missesCount := missesCount s + 1 \<rparr>"
  let ?f = "files s ! ?fi"
  let ?bc = "word_of_nat (length (sentBlocks ?f)) :: BlockIdx"
  from a have acc: "accepted_miss r s"
    and sb: "SendBlock lz4 (file_id r) (block_idx r) True ?s1 = Inr (Sent, s2)" by simp_all
  have inr: "?fi < length (files s)"
    using acc index_below_narrowed_size [of "file_id r" "length (files s)"]
    by (simp add: accepted_miss_def)
  have ty: "request_type r \<noteq> DESTROY" "request_type r \<noteq> SERVING_COMPLETE"
    using acc by (simp_all add: accepted_miss_def request_types)
  have p2: "prefetches s2 = prefetches s"
    using prefetches_SendBlock [OF sb] by simp
  have "map (\<lambda>f. length (sentBlocks f)) (files s2) = map (\<lambda>f. length (sentBlocks f)) (files s)"
    using SendBlock_block_counts [OF sb] by simp
  then have len2: "length (sentBlocks (files s2 ! ?fi)) = length (sentBlocks ?f)"
    using inr by (metis length_map nth_map)
  define p where "p = PrefetchState_range ?fi (files s2 ! ?fi) (block_idx r + 1) 7"
  have d: "dispatch lz4 r s =
             Inr (Running (s2\<lparr> missesSent := missesSent s2 + 1, prefetches := p # prefetches s2 \<rparr>))"
    using acc inr ty sb
    by (simp add: dispatch_def accepted_miss_def Let_def p_def)
  have lt: "sint (block_idx r) < sint ?bc"
    using acc by (simp add: accepted_miss_def)
  have idx: "sint (block_idx r + 1) = sint (block_idx r) + 1"
    using lt by (rule sint_succ_less)
  have eight: "block_idx r + 1 + 7 = block_idx r + 8" by simp
  have e: "overallEnd p = (if sint ?bc < sint (block_idx r + 8) then ?bc else block_idx r + 8)"
    unfolding p_def PrefetchState_range_def Let_def len2 eight by simp
  have int_reading: "sint (overallEnd p) = min (sint (block_idx r) + 8) (int (length (sentBlocks ?f)))"
    if small: "length (sentBlocks ?f) < 2 ^ 31 - 8"
  proof -
    have bc: "sint ?bc = int (length (sentBlocks ?f))"
      using small by (intro sint_of_nat_small) simp
    have "sint (block_idx r) + 8 < 2 ^ 31"
      using lt bc small by simp
    moreover have "- (2 ^ 31) \<le> sint (block_idx r) + 8"
      using acc by (simp add: accepted_miss_def)
    ultimately have "signed_take_bit 31 (sint (block_idx r) + 8) = sint (block_idx r) + 8"
      by (intro signed_take_bit_int_eq_self) auto
    then have "sint (block_idx r + 8) = sint (block_idx r) + 8"
      by (simp add: sint_word_ariths)
    then show ?thesis using bc by (simp add: e min_def)
  qed
  show "\<exists>s' p. dispatch lz4 r s = Inr (Running s') \<and> prefetches s' = p # prefetches s \<and>
         pfile p = nat (sint (file_id r)) \<and> pfile p < length (files s) \<and>
         overallIndex p = block_idx r + 1 \<and> sint (overallIndex p) = sint (block_idx r) + 1 \<and>
         overallEnd p =
           (let block_count = word_of_nat (length (sentBlocks (files s ! pfile p))) :: BlockIdx
            in if sint block_count < sint (block_idx r + 8) then block_count
               else block_idx r + 8) \<and>
         (length (sentBlocks (files s ! pfile p)) < 2 ^ 31 - 8 \<longrightarrow>
            sint (overallEnd p) =
              min (sint (block_idx r) + 8) (int (length (sentBlocks (files s ! pfile p)))))"
  proof (intro exI [of _ "s2\<lparr> missesSent := missesSent s2 + 1, prefetches := p # prefetches s2 \<rparr>"]
               exI [of _ p] conjI)
    have pf: "pfile p = ?fi" "overallIndex p = block_idx r + 1"
      by (simp_all add: p_def PrefetchState_range_def Let_def)
    show "dispatch lz4 r s =
            Inr (Running (s2\<lparr> missesSent := missesSent s2 + 1, prefetches := p # prefetches s2 \<rparr>))"
      by (rule d)
    show "prefetches (s2\<lparr> missesSent := missesSent s2 + 1, prefetches := p # prefetches s2 \<rparr>)
            = p # prefetches s" by (simp add: p2)
    show "pfile p = ?fi" by (rule pf)
    show "pfile p < length (files s)" using inr pf by simp
    show "overallIndex p = block_idx r + 1" by (rule pf)
    show "sint (overallIndex p) = sint (block_idx r) + 1" using idx pf by simp
    show "overallEnd p =
           (let block_count = word_of_nat (length (sentBlocks (files s ! pfile p))) :: BlockIdx
            in if sint block_count < sint (block_idx r + 8) then block_count
               else block_idx r + 8)"
      using e pf by (simp add: Let_def)
    show "length (sentBlocks (files s ! pfile p)) < 2 ^ 31 - 8 \<longrightarrow>
            sint (overallEnd p) =
              min (sint (block_idx r) + 8) (int (length (sentBlocks (files s ! pfile p))))"
      using int_reading pf by simp
  qed
next
  assume acc: "accepted_prefetch r s"
  have ty: "request_type r \<noteq> DESTROY" "request_type r \<noteq> SERVING_COMPLETE"
    "request_type r \<noteq> BLOCK_MISSING" "request_type r = PREFETCH"
    using acc by (simp_all add: accepted_prefetch_def request_types)
  show "\<exists>s' p. dispatch lz4 r s = Inr (Running s') \<and> prefetches s' = prefetches s @ [p] \<and>
         pfile p = nat (sint (file_id r)) \<and> overallIndex p = 0 \<and>
         overallEnd p = word_of_nat (length (sentBlocks (files s ! pfile p)))"
    using acc ty
    by (simp add: dispatch_def accepted_prefetch_def Let_def PrefetchState_full_def)
qed

theorem dispatch_enqueues_prefetch_witness:
  "accepted_miss example_miss example_server
   \<and> (\<exists>s2. SendBlock example_lz4 (file_id example_miss) (block_idx example_miss) True
               (example_server\<lparr> missesCount := missesCount example_server + 1 \<rparr>) = Inr (Sent, s2))
   \<and> (\<exists>s' p. dispatch example_lz4 example_miss example_server = Inr (Running s')
          \<and> prefetches s' = p # prefetches example_server
          \<and> pfile p = 0 \<and> sint (overallIndex p) = 1 \<and> sint (overallEnd p) = 1)
   \<and> accepted_prefetch example_prefetch example_server
   \<and> (\<exists>s' p. dispatch example_lz4 example_prefetch example_server = Inr (Running s')
          \<and> prefetches s' = prefetches example_server @ [p]
          \<and> pfile p = 0 \<and> overallIndex p = 0 \<and> overallEnd p = 1)"
proof -
  have fs: "files example_server = [example_file]" "prefetchedFiles example_server = {}"
    "prefetches example_server = []"
    by (simp_all add: example_server_def new_IncrementalServer_def)
  have sb: "sentBlocks example_file = [False]"
    by (simp add: example_file_def)
  have am: "accepted_miss example_miss example_server"
    by (simp add: accepted_miss_def example_miss_def fs sb)
  have ap: "accepted_prefetch example_prefetch example_server"
    by (simp add: accepted_prefetch_def example_prefetch_def fs)
  have "\<exists>s2. SendBlock example_lz4 (file_id example_miss) (block_idx example_miss) True
               (example_server\<lparr> missesCount := missesCount example_server + 1 \<rparr>) = Inr (Sent, s2)"
    by (simp add: SendBlock_def example_miss_def example_server_def new_IncrementalServer_def
          example_file_def ReadBlock_def adb_pread_def blockIndexToOffset_def kBlockSize_def
          Let_def split: prod.splits)
  then obtain s2 where
    s2: "SendBlock example_lz4 (file_id example_miss) (block_idx example_miss) True
           (example_server\<lparr> missesCount := missesCount example_server + 1 \<rparr>) = Inr (Sent, s2)" ..
  have small: "length (sentBlocks (files example_server ! 0)) < 2 ^ 31 - 8"
    by (simp add: fs sb)
  have m: "\<exists>s' p. dispatch example_lz4 example_miss example_server = Inr (Running s')
          \<and> prefetches s' = p # prefetches example_server
          \<and> pfile p = 0 \<and> sint (overallIndex p) = 1 \<and> sint (overallEnd p) = 1"
    using dispatch_enqueues_prefetch [of example_miss example_server example_lz4 s2,
            THEN conjunct1] am s2 small
    by (auto simp: example_miss_def fs sb)
  have q: "\<exists>s' p. dispatch example_lz4 example_prefetch example_server = Inr (Running s')
          \<and> prefetches s' = prefetches example_server @ [p]
          \<and> pfile p = 0 \<and> overallIndex p = 0 \<and> overallEnd p = 1"
    using dispatch_enqueues_prefetch [of example_prefetch example_server example_lz4 s2,
            THEN conjunct2] ap
    by (auto simp: example_prefetch_def fs sb)
  from am s2 m ap q show ?thesis by blast
qed

subsection \<open>Properties kept by a pass of the loop\<close>

text \<open>A property of the state that every returning \<^verbatim>\<open>SendBlock\<close> keeps, and that does not
  depend on the members the other steps write, is kept by the prefetch pass, by the dispatch
  and by the part of a pass of \<^verbatim>\<open>Serve\<close> that follows the completion check.\<close>

lemma prefetch_blocks_preserves:
  assumes step: "\<And>lz4 ident i fl s res s1. P s \<Longrightarrow> SendBlock lz4 ident i fl s = Inr (res, s1) \<Longrightarrow> P s1"
    and err: "\<And>s e. P s \<Longrightarrow> P (s\<lparr> stderr := e \<rparr>)"
  shows "P s \<Longrightarrow> prefetch_blocks lz4 ident i e b s = Inr (i', b', s') \<Longrightarrow> P s'"
proof (induction lz4 ident i e b s rule: prefetch_blocks.induct)
  case (1 lz4 ident i e b s)
  show ?case
  proof (cases "b > 0 \<and> sint i < sint e")
    case False
    with "1.prems" show ?thesis
      by (auto simp: prefetch_blocks.simps [of lz4 ident i e b s])
  next
    case True
    then obtain res s1 where sb: "SendBlock lz4 ident i False s = Inr (res, s1)"
      using "1.prems"(2) by (cases "SendBlock lz4 ident i False s")
        (auto simp: prefetch_blocks.simps [of lz4 ident i e b s])
    have P1: "P s1" using step [OF "1.prems"(1) sb] .
    show ?thesis
    proof (cases res)
      case Sent
      then have "prefetch_blocks lz4 ident (i + 1) e (b - 1) s1 = Inr (i', b', s')"
        using "1.prems"(2) True sb by (simp add: prefetch_blocks.simps [of lz4 ident i e b s])
      from "1.IH"(1) [OF True sb refl Sent P1 this] show ?thesis .
    next
      case Skipped
      then have "prefetch_blocks lz4 ident (i + 1) e b s1 = Inr (i', b', s')"
        using "1.prems"(2) True sb by (simp add: prefetch_blocks.simps [of lz4 ident i e b s])
      from "1.IH"(3) [OF True sb refl _ _ P1 this] Skipped show ?thesis by simp
    next
      case Error
      then have "prefetch_blocks lz4 ident (i + 1) e b
                   (s1\<lparr> stderr := stderr s1 @ [FailedSendBlockPrefetch i] \<rparr>) = Inr (i', b', s')"
        using "1.prems"(2) True sb by (simp add: prefetch_blocks.simps [of lz4 ident i e b s])
      from "1.IH"(2) [OF True sb refl _ _ err [OF P1] this] Error show ?thesis by simp
    qed
  qed
qed

lemma RunPrefetching_loop_preserves:
  assumes step: "\<And>lz4 ident i fl s res s1. P s \<Longrightarrow> SendBlock lz4 ident i fl s = Inr (res, s1) \<Longrightarrow> P s1"
    and err: "\<And>s e. P s \<Longrightarrow> P (s\<lparr> stderr := e \<rparr>)"
    and que: "\<And>s q. P s \<Longrightarrow> P (s\<lparr> prefetches := q \<rparr>)"
  shows "P s \<Longrightarrow> RunPrefetching_loop lz4 b s = Inr s' \<Longrightarrow> P s'"
proof (induction lz4 b s rule: RunPrefetching_loop.induct)
  case (1 lz4 b s)
  show ?case
  proof (cases "prefetches s \<noteq> [] \<and> b > 0")
    case False
    with "1.prems" show ?thesis
      by (auto simp: RunPrefetching_loop.simps [of lz4 b s])
  next
    case True
    then obtain b1 s1 where body: "RunPrefetching_body lz4 b s = Inr (b1, s1)"
      using "1.prems"(2) by (cases "RunPrefetching_body lz4 b s")
        (auto simp: RunPrefetching_loop.simps [of lz4 b s])
    then have rest: "RunPrefetching_loop lz4 b1 s1 = Inr s'"
      using "1.prems"(2) True by (simp add: RunPrefetching_loop.simps [of lz4 b s])
    from body obtain i s0 where
      pb: "prefetch_blocks lz4 (fid (files s ! pfile (hd (prefetches s))))
             (overallIndex (hd (prefetches s))) (overallEnd (hd (prefetches s))) b s
           = Inr (i, b1, s0)"
      and s1: "\<exists>q. s1 = s0\<lparr> prefetches := q \<rparr>"
      by (auto simp: RunPrefetching_body_def Let_def split: if_splits sum.splits prod.splits)
    have "P s0"
      by (rule prefetch_blocks_preserves [where P = P, OF _ _ "1.prems"(1) pb])
         (erule (1) step, erule err)
    then have "P s1" using s1 que by auto
    from "1.IH" [OF True body refl this rest] show ?thesis .
  qed
qed


lemma RunPrefetching_preserves:
  assumes step: "\<And>lz4 ident i fl s res s1. P s \<Longrightarrow> SendBlock lz4 ident i fl s = Inr (res, s1) \<Longrightarrow> P s1"
    and err: "\<And>s e. P s \<Longrightarrow> P (s\<lparr> stderr := e \<rparr>)"
    and que: "\<And>s q. P s \<Longrightarrow> P (s\<lparr> prefetches := q \<rparr>)"
  shows "P s \<Longrightarrow> RunPrefetching lz4 s = Inr s' \<Longrightarrow> P s'"
  unfolding RunPrefetching_def
  by (erule (1) RunPrefetching_loop_preserves [where P = P, rotated 3])
     (erule (1) step, erule err, erule que)

lemma dispatch_preserves:
  assumes step: "\<And>lz4 ident i fl s res s1. P s \<Longrightarrow> SendBlock lz4 ident i fl s = Inr (res, s1) \<Longrightarrow> P s1"
    and err: "\<And>s e. P s \<Longrightarrow> P (s\<lparr> stderr := e \<rparr>)"
    and que: "\<And>s q. P s \<Longrightarrow> P (s\<lparr> prefetches := q \<rparr>)"
    and mc: "\<And>s c. P s \<Longrightarrow> P (s\<lparr> missesCount := c \<rparr>)"
    and ms: "\<And>s c. P s \<Longrightarrow> P (s\<lparr> missesSent := c \<rparr>)"
    and pf: "\<And>s c. P s \<Longrightarrow> P (s\<lparr> prefetchedFiles := c \<rparr>)"
    and sc: "\<And>s c. P s \<Longrightarrow> P (s\<lparr> servingComplete := c \<rparr>)"
    and P: "P s" and d: "dispatch lz4 r s = Inr out"
  shows "P (outcome_state out)"
proof -
  consider (destroy) "request_type r = DESTROY"
    | (complete) "request_type r \<noteq> DESTROY" "request_type r = SERVING_COMPLETE"
    | (miss) "request_type r \<noteq> DESTROY" "request_type r \<noteq> SERVING_COMPLETE"
        "request_type r = BLOCK_MISSING"
    | (prefetch) "request_type r \<noteq> DESTROY" "request_type r \<noteq> SERVING_COMPLETE"
        "request_type r \<noteq> BLOCK_MISSING" "request_type r = PREFETCH"
    | (other) "request_type r \<noteq> DESTROY" "request_type r \<noteq> SERVING_COMPLETE"
        "request_type r \<noteq> BLOCK_MISSING" "request_type r \<noteq> PREFETCH"
    by blast
  then show ?thesis
  proof cases
    case destroy
    with d P show ?thesis by (auto simp: dispatch_def Let_def)
  next
    case complete
    with d sc [OF P] show ?thesis by (auto simp: dispatch_def Let_def ServingComplete_def)
  next
    case miss
    let ?s1 = "s\<lparr> missesCount := missesCount s + 1 \<rparr>"
    have P1: "P ?s1" using mc [OF P] .
    show ?thesis
    proof (cases "SendBlock lz4 (file_id r) (block_idx r) True ?s1")
      case (Inl flt)
      with d miss err [OF P1] show ?thesis
        by (auto simp: dispatch_def Let_def split: if_splits)
    next
      case (Inr rs)
      obtain res s2 where rs: "rs = (res, s2)" by (cases rs)
      have P2: "P s2" using step [OF P1] Inr rs by simp
      from d miss Inr rs err [OF P1] err [OF P2] P2 que [OF ms [OF P2]] show ?thesis
        by (auto simp: dispatch_def Let_def split: if_splits)
    qed
  next
    case prefetch
    with d err [OF P] que [OF pf [OF P]] show ?thesis
      by (auto simp: dispatch_def Let_def split: if_splits)
  next
    case other
    with d err [OF P] show ?thesis by (auto simp: dispatch_def Let_def)
  qed
qed

lemma Serve_body_after_check_preserves:
  assumes step: "\<And>lz4 ident i fl s res s1. P s \<Longrightarrow> SendBlock lz4 ident i fl s = Inr (res, s1) \<Longrightarrow> P s1"
    and err: "\<And>s e. P s \<Longrightarrow> P (s\<lparr> stderr := e \<rparr>)"
    and que: "\<And>s q. P s \<Longrightarrow> P (s\<lparr> prefetches := q \<rparr>)"
    and mc: "\<And>s c. P s \<Longrightarrow> P (s\<lparr> missesCount := c \<rparr>)"
    and ms: "\<And>s c. P s \<Longrightarrow> P (s\<lparr> missesSent := c \<rparr>)"
    and pf: "\<And>s c. P s \<Longrightarrow> P (s\<lparr> prefetchedFiles := c \<rparr>)"
    and sc: "\<And>s c. P s \<Longrightarrow> P (s\<lparr> servingComplete := c \<rparr>)"
    and fl: "\<And>s. P s \<Longrightarrow> P (Flush s)"
    and rd: "\<And>s s'. P s \<Longrightarrow> reader_frame s s' \<Longrightarrow> P s'"
    and P: "P (completion_check s)" and b: "Serve_body lz4 s = Inr out"
  shows "P (outcome_state out)"
proof -
  let ?s1 = "completion_check s"
  let ?s2 = "if prefetches ?s1 = [] then Flush ?s1 else ?s1"
  obtain req s3 where rr: "ReadRequest (prefetches ?s1 = []) ?s2 = (req, s3)"
    by (cases "ReadRequest (prefetches ?s1 = []) ?s2")
  have P2: "P ?s2" using P fl by simp
  have P3: "P s3" using rd [OF P2 reader_frame_ReadRequest [OF rr]] .
  show ?thesis
  proof (cases req)
    case None
    then obtain s5 where rp: "RunPrefetching lz4 s3 = Inr s5" and out: "out = Running s5"
      using b rr by (auto simp: Serve_body_def Let_def split: sum.splits)
    have "P s5"
      by (rule RunPrefetching_preserves [where P = P, OF _ _ _ P3 rp])
         (erule (1) step, erule err, erule que)
    with out show ?thesis by simp
  next
    case (Some request)
    then obtain o4 where d: "dispatch lz4 request s3 = Inr o4"
      using b rr by (auto simp: Serve_body_def Let_def split: sum.splits)
    have P4: "P (outcome_state o4)"
      by (rule dispatch_preserves [where P = P, OF _ _ _ _ _ _ _ P3 d])
         (erule (1) step, erule err, erule que, erule mc, erule ms, erule pf, erule sc)
    show ?thesis
    proof (cases o4)
      case (Returned bb s4)
      then have "out = Returned bb s4"
        using b rr Some d by (simp add: Serve_body_def Let_def)
      with P4 Returned show ?thesis by simp
    next
      case (Running s4)
      then obtain s5 where rp: "RunPrefetching lz4 s4 = Inr s5" and out: "out = Running s5"
        using b rr Some d by (auto simp: Serve_body_def Let_def split: sum.splits)
      have P4': "P s4" using P4 Running by simp
      have "P s5"
        by (rule RunPrefetching_preserves [where P = P, OF _ _ _ P4' rp])
           (erule (1) step, erule err, erule que)
      with out show ?thesis by simp
    qed
  qed
qed

subsection \<open>Sent counter and sent bitmap\<close>

lemma popcount_le_length: "popcount bs \<le> length bs"
  by (simp add: popcount_def)

lemma popcount_mark:
  "i < length bs \<Longrightarrow> \<not> bs ! i \<Longrightarrow> popcount (bs[i := True]) = Suc (popcount bs)"
proof (induction bs arbitrary: i)
  case Nil
  then show ?case by simp
next
  case (Cons b bs)
  then show ?case by (cases i) (auto simp: popcount_def)
qed

lemma popcount_unsent_less:
  assumes "i < length bs" and "\<not> bs ! i"
  shows "popcount bs < length bs"
proof -
  have "Suc (popcount bs) = popcount (bs[i := True])"
    using popcount_mark [OF assms] by simp
  also have "\<dots> \<le> length bs"
    using popcount_le_length [of "bs[i := True]"] by simp
  finally show ?thesis by simp
qed

lemma count_coherent_mark:
  assumes coh: "count_coherent f" and i: "i < length (sentBlocks f)" and un: "\<not> sentBlocks f ! i"
  shows "count_coherent (f\<lparr> sentBlocks := (sentBlocks f)[i := True],
                            sentBlocksCount := sentBlocksCount f + 1 \<rparr>)"
proof -
  have len: "length (sentBlocks f) < 2 ^ 31"
    and cnt: "sint (sentBlocksCount f) = int (popcount (sentBlocks f))"
    using coh by (simp_all add: count_coherent_def)
  have "popcount (sentBlocks f) < length (sentBlocks f)"
    using popcount_unsent_less [OF i un] .
  then have up: "sint (sentBlocksCount f) + 1 < 2 ^ 31"
    using len cnt by simp
  have lo: "- (2 ^ 31) \<le> sint (sentBlocksCount f) + 1"
    using cnt by simp
  have "signed_take_bit 31 (sint (sentBlocksCount f) + 1) = sint (sentBlocksCount f) + 1"
    using lo up by (intro signed_take_bit_int_eq_self) auto
  then have "sint (sentBlocksCount f + 1) = sint (sentBlocksCount f) + 1"
    by (simp add: sint_word_ariths)
  then show ?thesis
    using len cnt popcount_mark [OF i un] by (simp add: count_coherent_def)
qed

lemma files_coherent_SendBlock:
  assumes "files_coherent s" and "SendBlock lz4 ident i fl s = Inr (res, s1)"
  shows "files_coherent s1"
proof (cases "res = Sent")
  case False
  then show ?thesis
    using SendBlock_effect [OF assms(2)] assms(1) by (simp add: files_coherent_def)
next
  case True
  let ?fi = "nat (sint ident)"
  let ?f = "files s ! ?fi"
  from SendBlock_effect [OF assms(2)] True have
    fi: "?fi < length (files s)" and bi: "nat (sint i) < length (sentBlocks ?f)"
    and un: "\<not> sentBlocks ?f ! nat (sint i)"
    and fs: "files s1 = (files s)[?fi := ?f\<lparr> sentBlocks := (sentBlocks ?f)[nat (sint i) := True],
                                             sentBlocksCount := sentBlocksCount ?f + 1 \<rparr>]"
    by simp_all
  have all: "\<forall>f \<in> set (files s). count_coherent f"
    using assms(1) by (simp add: files_coherent_def list_all_iff)
  then have "count_coherent ?f" using fi by simp
  from count_coherent_mark [OF this bi un] all show ?thesis
    unfolding files_coherent_def list_all_iff fs
    by (metis insertE set_update_subset_insert subsetD)
qed

lemma files_coherent_updates:
  "files_coherent (s\<lparr> stderr := e \<rparr>) = files_coherent s"
  "files_coherent (s\<lparr> prefetches := q \<rparr>) = files_coherent s"
  "files_coherent (s\<lparr> missesCount := c \<rparr>) = files_coherent s"
  "files_coherent (s\<lparr> missesSent := c \<rparr>) = files_coherent s"
  "files_coherent (s\<lparr> prefetchedFiles := p \<rparr>) = files_coherent s"
  "files_coherent (s\<lparr> servingComplete := b \<rparr>) = files_coherent s"
  "files_coherent (s\<lparr> doneSent := b \<rparr>) = files_coherent s"
  "files_coherent (s\<lparr> emitted := h \<rparr>) = files_coherent s"
  "files_coherent (s\<lparr> adb_writes := w \<rparr>) = files_coherent s"
  "files_coherent (Flush s) = files_coherent s"
  "files_coherent (Send d fl s) = files_coherent s"
  by (simp_all add: files_coherent_def Flush_fields Send_fields)

lemma files_coherent_completion_check:
  "files_coherent (completion_check s) = files_coherent s"
  by (simp add: completion_check_def SendDone_def Let_def files_coherent_updates)

lemma files_coherent_Serve_body:
  assumes "files_coherent s" and "Serve_body lz4 s = Inr out"
  shows "files_coherent (outcome_state out)"
proof (rule Serve_body_after_check_preserves [where P = files_coherent, OF _ _ _ _ _ _ _ _ _ _ assms(2)])
  show "files_coherent (completion_check s)"
    using assms(1) by (simp add: files_coherent_completion_check)
  show "\<And>s s'. files_coherent s \<Longrightarrow> reader_frame s s' \<Longrightarrow> files_coherent s'"
    using reader_frame_fields(1) by (simp add: files_coherent_def)
qed (auto simp: files_coherent_updates elim: files_coherent_SendBlock)

lemma files_coherent_Serve_loop:
  "files_coherent s \<Longrightarrow> Serve_loop lz4 n s = Inr out \<Longrightarrow> files_coherent (outcome_state out)"
proof (induction n arbitrary: s)
  case 0
  then show ?case by auto
next
  case (Suc n)
  from Suc.prems(2) obtain o1 where b: "Serve_body lz4 s = Inr o1"
    by (cases "Serve_body lz4 s") auto
  have c1: "files_coherent (outcome_state o1)"
    using files_coherent_Serve_body [OF Suc.prems(1) b] .
  show ?case
  proof (cases o1)
    case (Returned bb s1)
    with Suc.prems(2) b c1 show ?thesis by simp
  next
    case (Running s1)
    with Suc.prems(2) b have "Serve_loop lz4 n s1 = Inr out" by simp
    from Suc.IH [OF _ this] c1 Running show ?thesis by simp
  qed
qed

lemma count_coherent_mk_File: "mk_File path i sz h = Inr f \<Longrightarrow> count_coherent f"
proof -
  assume a: "mk_File path i sz h = Inr f"
  let ?n = "numBytesToNumBlocks sz"
  have "sint ?n < 2 ^ 31" using sint_lt [of ?n] by simp
  with a show ?thesis
    by (auto simp: mk_File_def Let_def count_coherent_def popcount_def split: if_splits)
qed

lemma open_files_coherent: "open_files i args = Inr fs \<Longrightarrow> list_all count_coherent fs"
proof (induction args arbitrary: i fs)
  case Nil
  then show ?case by simp
next
  case (Cons a args)
  obtain path sz h where a: "a = (path, sz, h)" by (cases a)
  from Cons.prems a obtain f fs' where
    f: "mk_File path (word_of_nat i) sz h = Inr f" and
    r: "open_files (Suc i) args = Inr fs'" and fs: "fs = f # fs'"
    by (auto split: sum.splits)
  from count_coherent_mk_File [OF f] Cons.IH [OF r] fs show ?case by simp
qed

text \<open>
  Claim C3. Start the server on any file table built by \<^verbatim>\<open>serve\<close> and run any number of passes
  of the loop against any behaviour of the connection and any compressor. In the state at the
  head of the next pass, or in the state in which \<^verbatim>\<open>Serve\<close> returned, every file's
  \<open>sentBlocksCount\<close> equals the number of true bits of its \<open>sentBlocks\<close>. The same holds after
  each \<^verbatim>\<open>SendBlock\<close>, prefetch pass and dispatch (\<open>files_coherent_SendBlock\<close> and the lemmas on
  kept properties).
\<close>

theorem sent_count_is_popcount:
  assumes "open_files 0 args = Inr fs"
    and "Serve lz4 okay n (new_IncrementalServer garbage inbound fs) = Inr out"
  shows "\<forall>f \<in> set (files (outcome_state out)).
           sint (sentBlocksCount f) = int (popcount (sentBlocks f))"
proof -
  let ?s0 = "new_IncrementalServer garbage inbound fs"
  have c0: "files_coherent ?s0"
    using open_files_coherent [OF assms(1)]
    by (simp add: files_coherent_def new_IncrementalServer_def)
  have "files_coherent (outcome_state out)"
  proof (cases okay)
    case False
    with assms(2) c0 show ?thesis
      by (auto simp: Serve_def files_coherent_updates)
  next
    case True
    with assms(2) have
      "Serve_loop lz4 n (?s0\<lparr> adb_writes := adb_writes ?s0 @ [[0x4F, 0x4B, 0x41, 0x59]] \<rparr>) = Inr out"
      by (simp add: Serve_def)
    from files_coherent_Serve_loop [OF _ this] c0 show ?thesis
      by (simp add: files_coherent_updates)
  qed
  then show ?thesis
    by (simp add: files_coherent_def list_all_iff count_coherent_def)
qed

lemma open_files_example: "open_files 0 example_args = Inr [example_file]"
  by (simp add: example_args_def example_file_def mk_File_def numBytesToNumBlocks_def
        roundUpToBlockOffset_def roundDownToBlockOffset_def Let_def)

lemma Serve_example:
  "\<exists>s. Serve example_lz4 True 2 (new_IncrementalServer False example_inbound [example_file])
          = Inr (Returned True s)
       \<and> map sentBlocks (files s) = [[True]] \<and> map sentBlocksCount (files s) = [1]"
  by (simp add: Serve_def Serve_loop_numeral example_inbound_def frame_reader_defs request_types
        serve_defs prefetch_defs SendBlock_def SendDone_def Send_def ReadBlock_def adb_pread_def
        blockIndexToOffset_def kBlockSize_def choose_response_def LZ4_compress_default_def
        example_lz4_def kCompressBound_val kCompressedSizeMax_val kCompressionLZ4_def
        kCompressionNone_def PrefetchState_range_def sizeof_ChunkHeader_def kChunkFlushSize_def
        header_bytes_def toBigEndian16_def toBigEndian32_def)

theorem sent_count_is_popcount_witness:
  "\<exists>out. open_files 0 example_args = Inr [example_file]
     \<and> Serve example_lz4 True 2 (new_IncrementalServer False example_inbound [example_file]) = Inr out
     \<and> map sentBlocks (files (outcome_state out)) = [[True]]
     \<and> list_all (\<lambda>f. sint (sentBlocksCount f) = int (popcount (sentBlocks f)))
          (files (outcome_state out))"
proof -
  from Serve_example obtain s where
    run: "Serve example_lz4 True 2 (new_IncrementalServer False example_inbound [example_file])
            = Inr (Returned True s)"
    and bits: "map sentBlocks (files s) = [[True]]" by auto
  from sent_count_is_popcount [OF open_files_example run]
  have "list_all (\<lambda>f. sint (sentBlocksCount f) = int (popcount (sentBlocks f)))
          (files (outcome_state (Returned True s)))"
    by (simp add: list_all_iff)
  with open_files_example run bits show ?thesis
    by (intro exI [of _ "Returned True s"]) simp
qed

subsection \<open>End-of-stream sentinel\<close>

lemma completion_check_effect:
  "doneSent (completion_check s) = (doneSent s \<or> complete_and_idle s)"
  "sentinels (completion_check s) =
     sentinels s + (if \<not> doneSent s \<and> complete_and_idle s then 1 else 0)"
  by (auto simp: completion_check_def complete_and_idle_def SendDone_def Let_def sentinels_def
        emitted_Send Send_fields is_sentinel_def)

lemma sentinels_SendBlock:
  assumes "SendBlock lz4 ident i fl s = Inr (res, s1)"
  shows "sentinels s1 = sentinels s \<and> doneSent s1 = doneSent s"
proof (cases "res = Sent")
  case False
  then show ?thesis using SendBlock_effect [OF assms] by (simp add: sentinels_def)
next
  case True
  from SendBlock_effect [OF assms] True obtain h where
    h: "emitted s1 = emitted s @ [h]" "hdr_file_id h = ident" and pos: "0 \<le> sint ident"
    and d: "doneSent s1 = doneSent s" by auto
  have "ident \<noteq> - 1" using pos by auto
  then show ?thesis using h d by (simp add: sentinels_def is_sentinel_def)
qed

lemma sentinels_updates:
  "sentinels (s\<lparr> stderr := e \<rparr>) = sentinels s"
  "sentinels (s\<lparr> prefetches := q \<rparr>) = sentinels s"
  "sentinels (s\<lparr> missesCount := c \<rparr>) = sentinels s"
  "sentinels (s\<lparr> missesSent := c \<rparr>) = sentinels s"
  "sentinels (s\<lparr> prefetchedFiles := p \<rparr>) = sentinels s"
  "sentinels (s\<lparr> servingComplete := b \<rparr>) = sentinels s"
  "sentinels (Flush s) = sentinels s"
  by (simp_all add: sentinels_def emitted_Flush)

text \<open>One pass of the loop sends the sentinel exactly when its completion check fires.\<close>

lemma Serve_body_sentinel:
  assumes "Serve_body lz4 s = Inr out"
  shows "doneSent (outcome_state out) = (doneSent s \<or> complete_and_idle s)"
    and "sentinels (outcome_state out) =
           sentinels s + (if \<not> doneSent s \<and> complete_and_idle s then 1 else 0)"
proof -
  define D where "D = doneSent (completion_check s)"
  define N where "N = sentinels (completion_check s)"
  let ?P = "\<lambda>x. doneSent x = D \<and> sentinels x = N"
  have "?P (outcome_state out)"
  proof (rule Serve_body_after_check_preserves [where P = ?P, OF _ _ _ _ _ _ _ _ _ _ assms])
    show "?P (completion_check s)" by (simp add: D_def N_def)
    show "\<And>s s'. ?P s \<Longrightarrow> reader_frame s s' \<Longrightarrow> ?P s'"
      using reader_frame_fields(9,13) by (simp add: sentinels_def)
    show "\<And>lz4 ident i fl s res s1. ?P s \<Longrightarrow> SendBlock lz4 ident i fl s = Inr (res, s1) \<Longrightarrow> ?P s1"
      using sentinels_SendBlock by simp
  qed (simp_all add: sentinels_updates Flush_fields)
  then show "doneSent (outcome_state out) = (doneSent s \<or> complete_and_idle s)"
    and "sentinels (outcome_state out) =
           sentinels s + (if \<not> doneSent s \<and> complete_and_idle s then 1 else 0)"
    by (simp_all add: D_def N_def completion_check_effect)
qed

lemma Serve_loop_sentinel:
  assumes "Serve_loop lz4 n s = Inr out"
    and "doneSent s = (sentinels s = 1)" and "sentinels s \<le> 1"
  shows "sentinels (outcome_state out) \<le> 1
       \<and> doneSent (outcome_state out) = (sentinels (outcome_state out) = 1)
       \<and> (sentinels (outcome_state out) = 1) =
           (sentinels s = 1 \<or>
            (\<exists>k<n. \<exists>sk. Serve_loop lz4 k s = Inr (Running sk) \<and> complete_and_idle sk))"
  using assms
proof (induction n arbitrary: s)
  case 0
  then show ?case by auto
next
  case (Suc n)
  from Suc.prems(1) obtain o1 where b: "Serve_body lz4 s = Inr o1"
    by (cases "Serve_body lz4 s") auto
  let ?s1 = "outcome_state o1"
  note pass = Serve_body_sentinel [OF b]
  have inv1: "doneSent ?s1 = (sentinels ?s1 = 1)" "sentinels ?s1 \<le> 1"
    and one: "(sentinels ?s1 = 1) = (sentinels s = 1 \<or> complete_and_idle s)"
    using pass Suc.prems(2,3) by auto
  have k0: "Serve_loop lz4 0 s = Inr (Running s)" by simp
  show ?case
  proof (cases o1)
    case (Returned bb s1)
    then have out: "out = Returned bb s1" using Suc.prems(1) b by simp
    have "(\<exists>k<Suc n. \<exists>sk. Serve_loop lz4 k s = Inr (Running sk) \<and> complete_and_idle sk)
            = complete_and_idle s"
    proof
      assume "\<exists>k<Suc n. \<exists>sk. Serve_loop lz4 k s = Inr (Running sk) \<and> complete_and_idle sk"
      then obtain k sk where k: "Serve_loop lz4 k s = Inr (Running sk)" "complete_and_idle sk"
        by blast
      show "complete_and_idle s"
      proof (cases k)
        case 0
        with k show ?thesis by simp
      next
        case (Suc k')
        with k b Returned show ?thesis by simp
      qed
    next
      assume "complete_and_idle s"
      then show "\<exists>k<Suc n. \<exists>sk. Serve_loop lz4 k s = Inr (Running sk) \<and> complete_and_idle sk"
        using k0 by blast
    qed
    with inv1 one out Returned show ?thesis by simp
  next
    case (Running s1)
    then have rest: "Serve_loop lz4 n s1 = Inr out" using Suc.prems(1) b by simp
    have i1: "doneSent s1 = (sentinels s1 = 1)" "sentinels s1 \<le> 1"
      using inv1 Running by simp_all
    note IH = Suc.IH [OF rest i1]
    have shift: "\<And>k. Serve_loop lz4 (Suc k) s = Serve_loop lz4 k s1"
      using b Running by simp
    have "(\<exists>k<Suc n. \<exists>sk. Serve_loop lz4 k s = Inr (Running sk) \<and> complete_and_idle sk)
            = (complete_and_idle s \<or>
               (\<exists>k<n. \<exists>sk. Serve_loop lz4 k s1 = Inr (Running sk) \<and> complete_and_idle sk))"
    proof
      assume "\<exists>k<Suc n. \<exists>sk. Serve_loop lz4 k s = Inr (Running sk) \<and> complete_and_idle sk"
      then obtain k sk where k: "k < Suc n" "Serve_loop lz4 k s = Inr (Running sk)"
        "complete_and_idle sk" by blast
      show "complete_and_idle s \<or>
              (\<exists>k<n. \<exists>sk. Serve_loop lz4 k s1 = Inr (Running sk) \<and> complete_and_idle sk)"
      proof (cases k)
        case 0
        with k show ?thesis by simp
      next
        case (Suc k')
        with k shift [of k'] show ?thesis by auto
      qed
    next
      assume "complete_and_idle s \<or>
              (\<exists>k<n. \<exists>sk. Serve_loop lz4 k s1 = Inr (Running sk) \<and> complete_and_idle sk)"
      then show "\<exists>k<Suc n. \<exists>sk. Serve_loop lz4 k s = Inr (Running sk) \<and> complete_and_idle sk"
      proof
        assume "complete_and_idle s"
        then show ?thesis using k0 by blast
      next
        assume "\<exists>k<n. \<exists>sk. Serve_loop lz4 k s1 = Inr (Running sk) \<and> complete_and_idle sk"
        then obtain k sk where "k < n" "Serve_loop lz4 k s1 = Inr (Running sk)"
          "complete_and_idle sk" by blast
        then have "Suc k < Suc n \<and> Serve_loop lz4 (Suc k) s = Inr (Running sk) \<and> complete_and_idle sk"
          using shift [of k] by simp
        then show ?thesis by blast
      qed
    qed
    with IH one Running show ?thesis by auto
  qed
qed

text \<open>The readers invert the writers: a packed header decodes to its fields, and a record
  sequence extended by whole records parses to the extended header sequence.\<close>

lemma bytes_to_word16:
  "push_bit 8 (ucast (ucast (drop_bit 8 w) :: byte)) OR ucast (ucast w :: byte) = (w :: 16 word)"
  by (rule bit_word_eqI) (auto simp: bit_simps)

lemma bytes_to_word32:
  "push_bit 24 (ucast (ucast (drop_bit 24 w) :: byte)) OR
   push_bit 16 (ucast (ucast (drop_bit 16 w) :: byte)) OR
   push_bit 8 (ucast (ucast (drop_bit 8 w) :: byte)) OR ucast (ucast w :: byte) = (w :: 32 word)"
proof (rule bit_word_eqI)
  fix n :: nat
  assume "n < LENGTH(32)"
  then consider "n < 8" | "8 \<le> n" "n < 16" | "16 \<le> n" "n < 24" | "24 \<le> n" "n < 32"
    by fastforce
  then show "bit (push_bit 24 (ucast (ucast (drop_bit 24 w) :: byte)) OR
                  push_bit 16 (ucast (ucast (drop_bit 16 w) :: byte)) OR
                  push_bit 8 (ucast (ucast (drop_bit 8 w) :: byte)) OR
                  ucast (ucast w :: byte) :: 32 word) n = bit w n"
    by cases (auto simp: bit_simps)
qed

lemma decode_header_bytes: "decode_header (header_bytes h @ rest) = h"
  by (simp add: decode_header_def header_bytes_def toBigEndian16_def toBigEndian32_def
        readBigEndian16_def readBigEndian32_def bytes_to_word16 bytes_to_word32)

lemma decode_header_prefix:
  assumes "10 \<le> length bs"
  shows "decode_header (bs @ cs) = decode_header bs"
proof -
  have "drop k (bs @ cs) ! i = drop k bs ! i" if "k + i < 10" for k i
  proof -
    have "i < length bs - k" using that assms by linarith
    then show ?thesis by (simp add: nth_append)
  qed
  from this [of 0] this [of 2] this [of 4] this [of 8] show ?thesis
    by (simp add: decode_header_def readBigEndian16_def readBigEndian32_def del: drop_append)
qed

lemma parse_records_Nil: "parse_records [] = Some []"
  by (simp add: parse_records.simps)

lemma parse_records_record:
  assumes "0 \<le> sint (block_size h)" and "int (length payload) = sint (block_size h)"
  shows "parse_records (header_bytes h @ payload @ rest) =
           (case parse_records rest of None \<Rightarrow> None | Some hs \<Rightarrow> Some (h # hs))"
proof -
  have len: "length (header_bytes h) = 10"
    by (simp add: length_header_bytes sizeof_ResponseHeader_def)
  have n: "nat (sint (block_size h)) = length payload"
    using assms by simp
  have ne: "header_bytes h \<noteq> []" using len by auto
  have dh: "decode_header (header_bytes h @ payload @ rest) = h"
    by (rule decode_header_bytes)
  show ?thesis
    using assms
    by (subst parse_records.simps)
       (simp add: dh ne len n sizeof_ResponseHeader_def split: option.splits)
qed

lemma parse_records_append:
  "parse_records bs = Some hs \<Longrightarrow>
     parse_records (bs @ cs) =
       (case parse_records cs of None \<Rightarrow> None | Some hs' \<Rightarrow> Some (hs @ hs'))"
proof (induction bs arbitrary: hs rule: parse_records.induct)
  case (1 bs)
  show ?case
  proof (cases "bs = []")
    case True
    with "1.prems" show ?thesis
      by (auto simp: parse_records_Nil split: option.splits)
  next
    case False
    let ?h = "decode_header bs"
    let ?k = "sizeof_ResponseHeader + nat (sint (block_size ?h))"
    from "1.prems" False have
      l: "\<not> length bs < sizeof_ResponseHeader" and
      ok: "\<not> (sint (block_size ?h) < 0 \<or>
               int (length bs) < int sizeof_ResponseHeader + sint (block_size ?h))"
      by (auto simp: parse_records.simps [of bs] split: if_splits)
    from "1.prems" False l ok obtain tl where
      t: "parse_records (drop ?k bs) = Some tl" and hs: "hs = ?h # tl"
      by (auto simp: parse_records.simps [of bs] split: option.splits)
    have k: "?k \<le> length bs" using ok by linarith
    have "10 \<le> length bs" using l by (simp add: sizeof_ResponseHeader_def)
    then have dh: "decode_header (bs @ cs) = ?h"
      by (simp add: decode_header_prefix)
    have dr: "drop ?k (bs @ cs) = drop ?k bs @ cs"
      using k by simp
    note IH = "1.IH" [OF False l ok t]
    have "parse_records (bs @ cs) =
            (case parse_records (drop ?k bs @ cs) of None \<Rightarrow> None | Some r \<Rightarrow> Some (?h # r))"
      using False l ok
      by (subst parse_records.simps)
         (auto simp: dh dr simp del: drop_append split: option.splits)
    then show ?thesis
      using IH hs by (auto split: option.splits)
  qed
qed


text \<open>The batcher keeps the bytes and the history in agreement.\<close>

lemma length_toBigEndian32: "length (toBigEndian32 w) = sizeof_ChunkHeader"
  by (simp add: toBigEndian32_def sizeof_ChunkHeader_def)

lemma readBigEndian32_bytes: "readBigEndian32 (toBigEndian32 w @ rest) = w"
  by (simp add: readBigEndian32_def toBigEndian32_def bytes_to_word32)

lemma chunk_payloads_snoc:
  "chunk_payloads cs = Some bs \<Longrightarrow>
   chunk_payloads (cs @ [toBigEndian32 (word_of_nat (length p)) @ p]) = Some (bs @ p)"
proof (induction cs arbitrary: bs)
  case Nil
  then show ?case by (simp add: length_toBigEndian32 readBigEndian32_bytes)
next
  case (Cons c cs)
  then show ?case by (auto split: if_splits option.splits)
qed

lemma chunk_headers_snoc:
  assumes "chunk_headers cs = Some hs" and "parse_records p = Some ps"
  shows "chunk_headers (cs @ [toBigEndian32 (word_of_nat (length p)) @ p]) = Some (hs @ ps)"
proof -
  from assms(1) obtain bs where bs: "chunk_payloads cs = Some bs" "parse_records bs = Some hs"
    by (auto simp: chunk_headers_def split: option.splits)
  from chunk_payloads_snoc [OF bs(1), of p] parse_records_append [OF bs(2), of p] assms(2)
  show ?thesis by (simp add: chunk_headers_def)
qed

lemma wire_agrees_Flush:
  assumes "wire_agrees s hs ps"
  shows "wire_agrees (Flush s) (hs @ ps) []"
proof (cases "pendingBlocks s = []")
  case True
  then have "ps = []" using assms by (simp add: wire_agrees_def parse_records_Nil)
  with True assms show ?thesis by (simp add: Flush_def)
next
  case False
  have ne: "adb_writes s \<noteq> []" and ok: "hd (adb_writes s) = okay_token"
    and w: "chunk_headers (tl (adb_writes s)) = Some hs"
    and p: "parse_records (drop sizeof_ChunkHeader (pendingBlocks s)) = Some ps"
    and e: "emitted s = hs @ ps"
    using assms by (simp_all add: wire_agrees_def)
  from chunk_headers_snoc [OF w p] show ?thesis
    using False ne ok e
    by (simp add: wire_agrees_def Flush_def Let_def parse_records_Nil)
qed

lemma wire_agrees_Send:
  assumes a: "wire_agrees s hs ps" and d: "parse_records d = Some [h]"
  shows "wire_agrees (Send d fl (s\<lparr> emitted := emitted s @ [h] \<rparr>)) (hs @ ps @ [h]) []
       \<or> \<not> fl \<and> wire_agrees (Send d fl (s\<lparr> emitted := emitted s @ [h] \<rparr>)) hs (ps @ [h])"
proof -
  define acc where
    "acc = (if pendingBlocks s = [] then replicate sizeof_ChunkHeader 0 else pendingBlocks s) @ d"
  define s2 where "s2 = s\<lparr> emitted := emitted s @ [h], pendingBlocks := acc \<rparr>"
  have sh: "pendingBlocks s = [] \<or> sizeof_ChunkHeader \<le> length (pendingBlocks s)"
    and ne: "adb_writes s \<noteq> []" and ok: "hd (adb_writes s) = okay_token"
    and w: "chunk_headers (tl (adb_writes s)) = Some hs"
    and p: "parse_records (drop sizeof_ChunkHeader (pendingBlocks s)) = Some ps"
    and e: "emitted s = hs @ ps"
    using a by (simp_all add: wire_agrees_def)
  have dr: "drop sizeof_ChunkHeader acc = drop sizeof_ChunkHeader (pendingBlocks s) @ d"
    and len: "sizeof_ChunkHeader \<le> length acc"
    using sh by (auto simp: acc_def)
  have "parse_records (drop sizeof_ChunkHeader acc) = Some (ps @ [h])"
    unfolding dr using parse_records_append [OF p, of d] d by simp
  then have a2: "wire_agrees s2 hs (ps @ [h])"
    using ne ok w e len by (simp add: wire_agrees_def s2_def)
  have S: "Send d fl (s\<lparr> emitted := emitted s @ [h] \<rparr>) =
             (if fl \<or> kChunkFlushSize < length acc then Flush s2 else s2)"
    by (simp add: Send_def Let_def acc_def s2_def)
  show ?thesis
  proof (cases "fl \<or> kChunkFlushSize < length acc")
    case True
    then show ?thesis using wire_agrees_Flush [OF a2] S by simp
  next
    case False
    then show ?thesis using a2 S by simp
  qed
qed

lemma wire_inv_Send:
  assumes "wire_inv s" and "parse_records d = Some [h]" and "is_sentinel h \<Longrightarrow> fl"
  shows "wire_inv (Send d fl (s\<lparr> emitted := emitted s @ [h] \<rparr>))"
proof -
  from assms(1) obtain hs ps where a: "wire_agrees s hs ps" and f: "filter is_sentinel ps = []"
    by (auto simp: wire_inv_def)
  from wire_agrees_Send [OF a assms(2), of fl] show ?thesis
  proof
    assume "wire_agrees (Send d fl (s\<lparr> emitted := emitted s @ [h] \<rparr>)) (hs @ ps @ [h]) []"
    then have "wire_agrees (Send d fl (s\<lparr> emitted := emitted s @ [h] \<rparr>)) (hs @ ps @ [h]) []
             \<and> filter is_sentinel [] = []" by simp
    then show ?thesis unfolding wire_inv_def by blast
  next
    assume b: "\<not> fl \<and> wire_agrees (Send d fl (s\<lparr> emitted := emitted s @ [h] \<rparr>)) hs (ps @ [h])"
    then have "\<not> is_sentinel h" using assms(3) by auto
    with b f have "wire_agrees (Send d fl (s\<lparr> emitted := emitted s @ [h] \<rparr>)) hs (ps @ [h])
             \<and> filter is_sentinel (ps @ [h]) = []" by auto
    then show ?thesis unfolding wire_inv_def by blast
  qed
qed

lemma wire_inv_eq:
  "adb_writes s' = adb_writes s \<Longrightarrow> pendingBlocks s' = pendingBlocks s \<Longrightarrow>
   emitted s' = emitted s \<Longrightarrow> wire_inv s' = wire_inv s"
  by (simp add: wire_inv_def wire_agrees_def)

lemma wire_inv_Flush: "wire_inv s \<Longrightarrow> wire_inv (Flush s)"
proof -
  assume "wire_inv s"
  then obtain hs ps where a: "wire_agrees s hs ps" by (auto simp: wire_inv_def)
  from wire_agrees_Flush [OF a]
  have "wire_agrees (Flush s) (hs @ ps) [] \<and> filter is_sentinel [] = []" by simp
  then show ?thesis unfolding wire_inv_def by blast
qed

text \<open>A call of \<^verbatim>\<open>SendBlock\<close> that sends hands the batcher the packed header it records,
  followed by \<open>block_size\<close> payload bytes.\<close>

lemma SendBlock_sends:
  assumes "SendBlock lz4 ident i fl s = Inr (Sent, s1)"
  shows "\<exists>h payload s2.
           s1 = Send (header_bytes h @ payload) fl (s2\<lparr> emitted := emitted s2 @ [h] \<rparr>)
         \<and> adb_writes s2 = adb_writes s \<and> pendingBlocks s2 = pendingBlocks s
         \<and> emitted s2 = emitted s \<and> hdr_file_id h = ident \<and> 0 \<le> sint ident
         \<and> int (length payload) = sint (block_size h)"
proof -
  let ?f = "files s ! nat (sint ident)"
  obtain n raw where rb: "ReadBlock ?f i = (n, raw)"
    by (cases "ReadBlock ?f i")
  obtain h payload where ch: "choose_response lz4 ident i n raw = (h, payload)"
    by (cases "choose_response lz4 ident i n raw")
  have g1: "\<not> (sint ident < 0 \<or> length (files s) \<le> nat (sint ident))"
    using assms
    by (cases "sint ident < 0 \<or> length (files s) \<le> nat (sint ident)")
       (simp_all add: SendBlock_def)
  have g2: "\<not> int (length (sentBlocks ?f)) \<le> sint i"
    using assms g1
    by (cases "int (length (sentBlocks ?f)) \<le> sint i") (simp_all add: SendBlock_def Let_def)
  have g3: "\<not> sint i < 0"
    using assms g1 g2 by (cases "sint i < 0") (simp_all add: SendBlock_def Let_def)
  have g4: "\<not> sentBlocks ?f ! nat (sint i)"
    using assms g1 g2 g3
    by (cases "sentBlocks ?f ! nat (sint i)") (simp_all add: SendBlock_def Let_def)
  have g5: "\<not> n < 0"
    using assms g1 g2 g3 g4 rb by (cases "n < 0") (simp_all add: SendBlock_def Let_def)
  then have n0: "0 \<le> n" by simp
  from g1 have pos: "0 \<le> sint ident" by simp
  have hid: "hdr_file_id h = ident"
    using ch by (auto simp: choose_response_def Let_def split: prod.splits if_splits)
  note pl = choose_response_payload [OF rb n0 ch]
  define s2 where
    "s2 = (if compression_type h = kCompressionLZ4
           then s\<lparr> compressed := compressed s + 1 \<rparr>
           else s\<lparr> uncompressed := uncompressed s + 1 \<rparr>)
          \<lparr> files := (files s)[nat (sint ident) :=
               ?f\<lparr> sentBlocks := (sentBlocks ?f)[nat (sint i) := True],
                    sentBlocksCount := sentBlocksCount ?f + 1 \<rparr>] \<rparr>"
  have fr: "adb_writes s2 = adb_writes s" "pendingBlocks s2 = pendingBlocks s"
    "emitted s2 = emitted s"
    by (simp_all add: s2_def)
  have "s1 = Send (header_bytes h @ payload) fl (s2\<lparr> emitted := emitted s2 @ [h] \<rparr>)"
    using assms g1 g2 g3 g4 g5 rb ch
    by (cases "compression_type h = kCompressionLZ4")
       (simp_all add: SendBlock_def Let_def s2_def)
  then show ?thesis using fr hid pos pl by blast
qed

lemma SendBlock_not_sent:
  assumes "SendBlock lz4 ident i fl s = Inr (res, s1)" and "res \<noteq> Sent"
  shows "adb_writes s1 = adb_writes s \<and> pendingBlocks s1 = pendingBlocks s
       \<and> emitted s1 = emitted s"
proof -
  obtain n raw where rb: "ReadBlock (files s ! nat (sint ident)) i = (n, raw)"
    by (cases "ReadBlock (files s ! nat (sint ident)) i")
  obtain h payload where ch: "choose_response lz4 ident i n raw = (h, payload)"
    by (cases "choose_response lz4 ident i n raw")
  show ?thesis
    using assms rb ch
    by (auto simp: SendBlock_def Let_def split: if_splits)
qed

lemma wire_inv_SendBlock:
  assumes "wire_inv s" and "SendBlock lz4 ident i fl s = Inr (res, s1)"
  shows "wire_inv s1"
proof (cases "res = Sent")
  case False
  from SendBlock_not_sent [OF assms(2) False]
  have "wire_inv s1 = wire_inv s" by (intro wire_inv_eq) simp_all
  then show ?thesis using assms(1) by simp
next
  case True
  from SendBlock_sends [OF assms(2) [unfolded True]] obtain h payload s2 where
    s1: "s1 = Send (header_bytes h @ payload) fl (s2\<lparr> emitted := emitted s2 @ [h] \<rparr>)"
    and fr: "adb_writes s2 = adb_writes s" "pendingBlocks s2 = pendingBlocks s"
      "emitted s2 = emitted s"
    and hid: "hdr_file_id h = ident" and pos: "0 \<le> sint ident"
    and pl: "int (length payload) = sint (block_size h)" by blast
  have i2: "wire_inv s2" using assms(1) wire_inv_eq [OF fr] by simp
  have "0 \<le> sint (block_size h)" using pl by linarith
  from parse_records_record [OF this pl, of "[]"]
  have pr: "parse_records (header_bytes h @ payload) = Some [h]"
    by (simp add: parse_records_Nil)
  have "sint ident \<noteq> sint (- 1 :: 16 word)" using pos by simp
  then have "ident \<noteq> - 1" by blast
  then have ns: "\<not> is_sentinel h" using hid by (simp add: is_sentinel_def)
  show ?thesis
    unfolding s1 using ns by (intro wire_inv_Send [OF i2 pr]) simp
qed

lemma wire_inv_SendDone: "wire_inv s \<Longrightarrow> wire_inv (SendDone s)"
proof -
  assume i: "wire_inv s"
  let ?h = "\<lparr> hdr_file_id = - 1, compression_type = 0, hdr_block_idx = 0, block_size = 0 \<rparr>"
  have "parse_records (header_bytes ?h @ [] @ []) = Some [?h]"
    by (subst parse_records_record) (simp_all add: parse_records_Nil)
  then have pr: "parse_records (header_bytes ?h) = Some [?h]" by simp
  show ?thesis
    unfolding SendDone_def Let_def by (rule wire_inv_Send [OF i pr]) simp
qed


text \<open>So does every pass of the loop.\<close>

lemma wire_inv_updates:
  "wire_inv (s\<lparr> stderr := e \<rparr>) = wire_inv s"
  "wire_inv (s\<lparr> prefetches := q \<rparr>) = wire_inv s"
  "wire_inv (s\<lparr> missesCount := c \<rparr>) = wire_inv s"
  "wire_inv (s\<lparr> missesSent := c \<rparr>) = wire_inv s"
  "wire_inv (s\<lparr> prefetchedFiles := p \<rparr>) = wire_inv s"
  "wire_inv (s\<lparr> servingComplete := b \<rparr>) = wire_inv s"
  "wire_inv (s\<lparr> doneSent := b \<rparr>) = wire_inv s"
  by (simp_all add: wire_inv_def wire_agrees_def)

lemma wire_inv_completion_check: "wire_inv s \<Longrightarrow> wire_inv (completion_check s)"
  by (simp add: completion_check_def wire_inv_updates wire_inv_SendDone)

lemma wire_inv_Serve_body:
  assumes "wire_inv s" and "Serve_body lz4 s = Inr out"
  shows "wire_inv (outcome_state out)"
proof (rule Serve_body_after_check_preserves [where P = wire_inv, OF _ _ _ _ _ _ _ _ _ _ assms(2)])
  show "wire_inv (completion_check s)"
    using assms(1) by (rule wire_inv_completion_check)
  show "\<And>s s'. wire_inv s \<Longrightarrow> reader_frame s s' \<Longrightarrow> wire_inv s'"
    using reader_frame_fields(6,12,13) wire_inv_eq by blast
qed (auto simp: wire_inv_updates elim: wire_inv_SendBlock wire_inv_Flush)

lemma wire_inv_Serve_loop:
  "wire_inv s \<Longrightarrow> Serve_loop lz4 n s = Inr out \<Longrightarrow> wire_inv (outcome_state out)"
proof (induction n arbitrary: s)
  case 0
  then show ?case by auto
next
  case (Suc n)
  from Suc.prems(2) obtain o1 where b: "Serve_body lz4 s = Inr o1"
    by (cases "Serve_body lz4 s") auto
  have c1: "wire_inv (outcome_state o1)"
    using wire_inv_Serve_body [OF Suc.prems(1) b] .
  show ?case
  proof (cases o1)
    case (Returned bb s1)
    with Suc.prems(2) b c1 show ?thesis by simp
  next
    case (Running s1)
    with Suc.prems(2) b have "Serve_loop lz4 n s1 = Inr out" by simp
    from Suc.IH [OF _ this] c1 Running show ?thesis by simp
  qed
qed

text \<open>
  Claim C2. Take any session after a successful handshake and stop it after \<open>n\<close> passes of the
  loop, or when \<^verbatim>\<open>Serve\<close> returns if that comes first. What the server has written to the
  connection is the \<^verbatim>\<open>OKAY\<close> token followed by chunks whose length prefixes count their
  payloads and whose payloads, put end to end, are a sequence of whole response records. Among
  the headers of those records the sentinel (\<open>file_id = -1\<close>, \<open>block_size = 0\<close>) occurs at most
  once, and it occurs if and only if at the head of one of the passes made, every file had
  \<open>sentBlocksCount\<close> equal to its block count while the prefetch queue was empty. The head of a
  pass is where the server looks; within a pass the file table and the queue change only after
  the check.
\<close>

theorem sentinel_written_iff_complete_and_idle:
  assumes "Serve lz4 True n (new_IncrementalServer garbage inbound fs) = Inr out"
  shows "\<exists>chunks hs.
           adb_writes (outcome_state out) = okay_token # chunks
         \<and> chunk_headers chunks = Some hs
         \<and> length (filter is_sentinel hs) \<le> 1
         \<and> (length (filter is_sentinel hs) = 1) =
             (\<exists>k<n. \<exists>sk. Serve lz4 True k (new_IncrementalServer garbage inbound fs)
                            = Inr (Running sk)
                        \<and> prefetches sk = [] \<and> all_files_sent sk)"
proof -
  let ?init = "new_IncrementalServer garbage inbound fs"
  let ?start = "?init\<lparr> adb_writes := adb_writes ?init @ [[0x4F, 0x4B, 0x41, 0x59]] \<rparr>"
  let ?end = "outcome_state out"
  have S: "\<And>k. Serve lz4 True k ?init = Serve_loop lz4 k ?start"
    by (simp add: Serve_def)
  have i: "doneSent ?start = (sentinels ?start = 1)" "sentinels ?start \<le> 1" "sentinels ?start \<noteq> 1"
    by (simp_all add: new_IncrementalServer_def sentinels_def)
  have "wire_agrees ?start [] []"
    by (simp add: wire_agrees_def new_IncrementalServer_def okay_token_def chunk_headers_def
          parse_records_Nil)
  then have "wire_inv ?start" unfolding wire_inv_def by (intro exI [of _ "[]"]) simp
  from wire_inv_Serve_loop [OF this assms [unfolded S]] obtain hs ps where
    a: "wire_agrees ?end hs ps" and f: "filter is_sentinel ps = []"
    by (auto simp: wire_inv_def)
  from a have w: "adb_writes ?end = okay_token # tl (adb_writes ?end)"
    and c: "chunk_headers (tl (adb_writes ?end)) = Some hs"
    and e: "emitted ?end = hs @ ps"
    by (auto simp: wire_agrees_def intro: list.expand)
  have n: "sentinels ?end = length (filter is_sentinel hs)"
    using e f by (simp add: sentinels_def)
  from Serve_loop_sentinel [OF assms [unfolded S] i(1,2)] i(3)
  have "length (filter is_sentinel hs) \<le> 1
      \<and> (length (filter is_sentinel hs) = 1) =
          (\<exists>k<n. \<exists>sk. Serve lz4 True k ?init = Inr (Running sk)
                     \<and> prefetches sk = [] \<and> all_files_sent sk)"
    unfolding n by (simp add: S complete_and_idle_def)
  with w c show ?thesis by blast
qed

lemma Serve_example_idle:
  "\<exists>sk. Serve example_lz4 True 1 (new_IncrementalServer False example_inbound [example_file])
           = Inr (Running sk)
        \<and> prefetches sk = [] \<and> all_files_sent sk"
  by (simp add: Serve_def Serve_loop_numeral example_inbound_def frame_reader_defs request_types
        serve_defs prefetch_defs SendBlock_def SendDone_def Send_def ReadBlock_def adb_pread_def
        blockIndexToOffset_def kBlockSize_def choose_response_def LZ4_compress_default_def
        example_lz4_def kCompressBound_val kCompressedSizeMax_val kCompressionLZ4_def
        kCompressionNone_def PrefetchState_range_def sizeof_ChunkHeader_def kChunkFlushSize_def
        header_bytes_def toBigEndian16_def toBigEndian32_def all_files_sent_def)

theorem sentinel_written_iff_complete_and_idle_witness:
  "\<exists>out chunks hs.
       Serve example_lz4 True 2 (new_IncrementalServer False example_inbound [example_file])
         = Inr out
     \<and> adb_writes (outcome_state out) = okay_token # chunks
     \<and> chunk_headers chunks = Some hs
     \<and> length (filter is_sentinel hs) = 1
     \<and> (\<exists>k<2. \<exists>sk. Serve example_lz4 True k
                        (new_IncrementalServer False example_inbound [example_file])
                      = Inr (Running sk)
                    \<and> prefetches sk = [] \<and> all_files_sent sk)"
proof -
  from Serve_example obtain s where
    run: "Serve example_lz4 True 2 (new_IncrementalServer False example_inbound [example_file])
            = Inr (Returned True s)" by auto
  have idle: "\<exists>k<2. \<exists>sk. Serve example_lz4 True k
                        (new_IncrementalServer False example_inbound [example_file])
                      = Inr (Running sk)
                    \<and> prefetches sk = [] \<and> all_files_sent sk"
    using Serve_example_idle by (intro exI [of _ 1]) simp
  from sentinel_written_iff_complete_and_idle [OF run] idle
  obtain chunks hs where
    "adb_writes (outcome_state (Returned True s)) = okay_token # chunks"
    "chunk_headers chunks = Some hs" "length (filter is_sentinel hs) = 1"
    by auto
  with run idle show ?thesis by blast
qed

subsection \<open>Frame reader: the read capacity\<close>

text \<open>When \<^verbatim>\<open>SkipToRequest\<close> reaches the poll, fewer than twelve bytes are buffered, so the
  capacity \<^verbatim>\<open>kReadBufferSize - bsize\<close> handed to \<^verbatim>\<open>adb_read\<close> is positive.\<close>

lemma scan_magic_result:
  "scan_magic buf b = (found, c) \<Longrightarrow>
     b \<le> c \<and> (found \<longrightarrow> c + 4 < length buf) \<and> (\<not> found \<longrightarrow> \<not> c + 4 < length buf)"
proof (induction buf b rule: scan_magic.induct)
  case (1 buf bcur)
  show ?case
  proof (cases "bcur + 4 < length buf")
    case False
    with "1.prems" show ?thesis by (simp add: scan_magic.simps [of buf bcur])
  next
    case True
    show ?thesis
    proof (cases "readBigEndian32 (drop bcur buf) = INCR")
      case m: True
      with True "1.prems" show ?thesis by (simp add: scan_magic.simps [of buf bcur])
    next
      case m: False
      with True "1.prems" have "scan_magic buf (bcur + 1) = (found, c)"
        by (simp add: scan_magic.simps [of buf bcur])
      from "1.IH" [OF True m this] show ?thesis by simp
    qed
  qed
qed

lemma buffer_short_at_poll:
  assumes "scan_and_forward s = (m, s1)"
    and "\<not> (m \<and> sizeof_RequestCommand + sizeof_INCR \<le> length (buffer s1))"
  shows "length (buffer s1) < 12"
proof -
  obtain found c where sc: "scan_magic (buffer s) 0 = (found, c)"
    by (cases "scan_magic (buffer s) 0")
  from scan_magic_result [OF sc] assms sc show ?thesis
    by (auto simp: scan_and_forward_def erase_buffer_head_def write_output_def
          sizeof_RequestCommand_def sizeof_INCR_def split: if_splits)
qed

subsection \<open>Invalid requests that are dropped\<close>

text \<open>The requests that the dispatch does drop: the state changes by the miss counter and one
  diagnostic line only.\<close>

lemma dispatch_drops_invalid:
  assumes "request_type r = BLOCK_MISSING \<and>
             (sint (file_id r) < 0 \<or>
              sint (word_of_nat (length (files s)) :: FileId) \<le> sint (file_id r) \<or>
              sint (block_idx r) < 0 \<or>
              sint (word_of_nat (length (sentBlocks (files s ! nat (sint (file_id r))))) :: BlockIdx)
                \<le> sint (block_idx r))
           \<or> request_type r = PREFETCH \<and> (sint (file_id r) < 0 \<or> file_id r \<in> prefetchedFiles s)
           \<or> request_type r \<notin> {DESTROY, SERVING_COMPLETE, BLOCK_MISSING, PREFETCH}"
  shows "\<exists>e. dispatch lz4 r s =
           Inr (Running (s\<lparr> missesCount :=
                             missesCount s + (if request_type r = BLOCK_MISSING then 1 else 0),
                           stderr := stderr s @ [e] \<rparr>))"
proof -
  have idx: "nat (sint (file_id r)) < length (files s)"
    if "0 \<le> sint (file_id r)" "sint (file_id r) < sint (word_of_nat (length (files s)) :: FileId)"
    using index_below_narrowed_size [OF that] .
  consider (miss) "request_type r = BLOCK_MISSING"
    | (prefetch) "request_type r = PREFETCH"
    | (other) "request_type r \<notin> {DESTROY, SERVING_COMPLETE, BLOCK_MISSING, PREFETCH}"
    using assms by blast
  then show ?thesis
  proof cases
    case miss
    then have ty: "request_type r \<noteq> DESTROY" "request_type r \<noteq> SERVING_COMPLETE"
      "request_type r \<noteq> PREFETCH" by (simp_all add: request_types)
    with miss assms have bad: "sint (file_id r) < 0 \<or>
              sint (word_of_nat (length (files s)) :: FileId) \<le> sint (file_id r) \<or>
              sint (block_idx r) < 0 \<or>
              sint (word_of_nat (length (sentBlocks (files s ! nat (sint (file_id r))))) :: BlockIdx)
                \<le> sint (block_idx r)" by auto
    show ?thesis
    proof (cases "sint (file_id r) < 0 \<or>
              sint (word_of_nat (length (files s)) :: FileId) \<le> sint (file_id r) \<or>
              sint (block_idx r) < 0")
      case True
      with miss ty show ?thesis
        by (intro exI [of _ "InvalidDataRequest (file_id r) (block_idx r)"])
           (simp add: dispatch_def Let_def)
    next
      case False
      with bad idx miss ty show ?thesis
        by (intro exI [of _ "InvalidDataRequest (file_id r) (block_idx r)"])
           (simp add: dispatch_def Let_def)
    qed
  next
    case prefetch
    then have ty: "request_type r \<noteq> DESTROY" "request_type r \<noteq> SERVING_COMPLETE"
      "request_type r \<noteq> BLOCK_MISSING" by (simp_all add: request_types)
    with prefetch assms have bad: "sint (file_id r) < 0 \<or> file_id r \<in> prefetchedFiles s"
      by auto
    show ?thesis
    proof (cases "sint (file_id r) < 0")
      case True
      with prefetch ty show ?thesis
        by (intro exI [of _ "InvalidPrefetch (file_id r)"])
           (simp add: dispatch_def Let_def)
    next
      case False
      with bad prefetch ty show ?thesis
        by (intro exI [of _ "DuplicatePrefetch (file_id r)"])
           (simp add: dispatch_def Let_def)
    qed
  next
    case other
    then show ?thesis
      by (intro exI [of _ "InvalidRequest (request_type r) (file_id r) (block_idx r)"])
         (simp add: dispatch_def Let_def)
  qed
qed

subsection \<open>The sentinel on the wire\<close>

text \<open>On the wire the sentinel is the ten bytes \<^verbatim>\<open>FF FF 00 00 00 00 00 00 00 00\<close>, and
  \<^verbatim>\<open>SendDone\<close> writes them at once, at the end of the chunk that carries what was pending.\<close>

lemma sentinel_bytes:
  "header_bytes \<lparr> hdr_file_id = - 1, compression_type = 0, hdr_block_idx = 0, block_size = 0 \<rparr>
     = [0xFF, 0xFF, 0, 0, 0, 0, 0, 0, 0, 0]"
proof -
  have m: "(- 1 :: 16 word) = 0xFFFF" by simp
  show ?thesis
    unfolding m by (simp add: header_bytes_def toBigEndian16_def toBigEndian32_def drop_bit_eq_div)
qed

lemma SendDone_writes:
  assumes "pendingBlocks s = [] \<or> sizeof_ChunkHeader \<le> length (pendingBlocks s)"
  shows "adb_writes (SendDone s) =
           adb_writes s @
           [toBigEndian32 (word_of_nat (length (drop sizeof_ChunkHeader (pendingBlocks s)) + 10))
            @ drop sizeof_ChunkHeader (pendingBlocks s) @ [0xFF, 0xFF, 0, 0, 0, 0, 0, 0, 0, 0]]
         \<and> pendingBlocks (SendDone s) = []"
  using assms
  by (auto simp: SendDone_def Let_def sentinel_bytes Send_def Flush_def sizeof_ChunkHeader_def)

end
